theory Spec2Isabelle
  imports Main "HOL-Library.Char_ord"
begin

section \<open>Data model\<close>

text \<open>
  Strings are lists of characters, one \<^typ>\<open>char\<close> per code point. Timestamps are
  integers. Every exception that the source raises is a value of \<open>error\<close>;
  \<open>HTTPException\<close> carries the status code and the detail text.
\<close>

datatype error =
    InvalidId
  | ValueError
  | HTTPException nat string

text \<open>
  \<open>bson.ObjectId\<close> is a library type. Its constructor is a parameter of the model:
  \<open>oid s = None\<close> when \<open>ObjectId(s)\<close> raises \<open>InvalidId\<close>, and
  \<open>oid s = Some k\<close> when it succeeds, \<open>k\<close> being \<open>str(ObjectId(s))\<close>. A stored
  \<open>_id\<close> is kept in its string form.
\<close>

type_synonym oid_parser = "string \<Rightarrow> string option"

record user =
  uid :: string
  username :: string
  full_name :: "string option"
  bio :: "string option"
  password :: string
  role :: string

record comment =
  cid :: string
  content :: string
  post_id :: string
  parent_id :: "string option"
  author_id :: string
  created_at :: int
  updated_at :: int

record post =
  pid :: string
  title :: string
  p_content :: string
  summary :: string
  tags :: "string list"
  slug :: string
  status :: string
  p_author_id :: string
  p_created_at :: int
  p_updated_at :: int

record database =
  users :: "user list"
  posts :: "post list"
  comments :: "comment list"

text \<open>The public author fields that a read embeds into a post or a comment.\<close>

record author_public =
  a_id :: string
  a_username :: string
  a_full_name :: "string option"
  a_bio :: "string option"

text \<open>
  The dictionary returned by \<open>get_comment_by_id\<close>: the stored fields, \<open>_id\<close> renamed
  to \<open>id\<close>, and either the embedded \<open>author\<close> or, when no author document was
  looked up or found, the stored \<open>author_id\<close>.
\<close>

record comment_full =
  f_id :: string
  f_content :: string
  f_post_id :: string
  f_parent_id :: "string option"
  f_author :: "author_public option"
  f_author_id :: "string option"
  f_created_at :: int
  f_updated_at :: int

text \<open>A comment of a reply tree: the dictionary with its \<open>replies\<close> key set.\<close>

datatype CommentWithReplies =
  CommentWithReplies (node: comment_full) (replies: "CommentWithReplies list")

record post_full =
  pf_id :: string
  pf_title :: string
  pf_content :: string
  pf_summary :: string
  pf_tags :: "string list"
  pf_slug :: string
  pf_status :: string
  pf_author :: "author_public option"
  pf_author_id :: "string option"
  pf_created_at :: int
  pf_updated_at :: int
  pf_comments_count :: nat

text \<open>The authenticated caller, as the routes read it: \<open>current_user["id"]\<close> and
  \<open>current_user.get("role")\<close>.\<close>

record current_user =
  cu_id :: string
  cu_role :: string

section \<open>app/core/utils.py\<close>

text \<open>
  \<open>re.match(r"^[a-z0-9]+(?:-[a-z0-9]+)*$", slug)\<close>. The body of the pattern is
  recognised by \<open>slug_groups\<close>, whose flag says whether the current group already has a
  character. In Python \<open>$\<close> matches at the end of the string and also just before a
  newline that ends the string.
\<close>

definition is_lower_alnum :: "char \<Rightarrow> bool" where
  "is_lower_alnum c =
     (CHR ''a'' \<le> c \<and> c \<le> CHR ''z'' \<or> CHR ''0'' \<le> c \<and> c \<le> CHR ''9'')"

fun slug_groups :: "bool \<Rightarrow> string \<Rightarrow> bool" where
  "slug_groups seen [] = seen"
| "slug_groups seen (c # cs) =
     (if is_lower_alnum c then slug_groups True cs
      else if c = CHR ''-'' \<and> seen then slug_groups False cs
      else False)"

definition is_valid_slug :: "string \<Rightarrow> bool" where
  "is_valid_slug s =
     (slug_groups False s \<or>
      (s \<noteq> [] \<and> last s = CHR 0x0A \<and> slug_groups False (butlast s)))"

text \<open>
  The pattern as the specification reads it, \<open>^[a-z0-9]+(-[a-z0-9]+)*$\<close> over the
  whole string: non-empty groups of lower-case letters and digits, separated by single
  hyphens.
\<close>

definition slug_pattern :: "string \<Rightarrow> bool" where
  "slug_pattern s = slug_groups False s"

text \<open>\<open>str.isspace\<close> on the code points below 256.\<close>

definition isspace :: "char \<Rightarrow> bool" where
  "isspace c =
     (c \<in> set [CHR 0x09, CHR 0x0A, CHR 0x0B, CHR 0x0C, CHR 0x0D, CHR 0x1C, CHR 0x1D,
                CHR 0x1E, CHR 0x1F, CHR '' '', CHR 0x85, CHR 0xA0])"

definition rstrip :: "string \<Rightarrow> string" where
  "rstrip s = rev (dropWhile isspace (rev s))"

text \<open>\<open>s.rfind(c)\<close>: the highest index of \<open>c\<close> in \<open>s\<close>, or \<open>-1\<close>.\<close>

definition rfind :: "string \<Rightarrow> char \<Rightarrow> int" where
  "rfind s c =
     (if c \<in> set s then int (length s) - 1 - int (length (takeWhile (\<lambda>x. x \<noteq> c) (rev s)))
      else - 1)"

text \<open>\<open>max_length\<close> is 200 at every call of the source.\<close>

definition get_summary_from_content :: "string \<Rightarrow> nat \<Rightarrow> string" where
  "get_summary_from_content cont max_length =
     (if length cont \<le> max_length then cont
      else
        let summary0 = take max_length cont;
            last_space = rfind summary0 (CHR '' '');
            summary1 = (if last_space \<noteq> - 1 then take (nat last_space) summary0 else summary0)
        in rstrip summary1 @ ''...'')"

section \<open>The document store\<close>

text \<open>
  A collection is the list of its documents in insertion order. \<open>find_one\<close> is
  \<^const>\<open>find\<close>; \<open>delete_one\<close> removes the first match and reports
  \<open>deleted_count\<close>; \<open>update_one\<close> rewrites the first match.
\<close>

fun remove_first :: "('a \<Rightarrow> bool) \<Rightarrow> 'a list \<Rightarrow> 'a list" where
  "remove_first P [] = []"
| "remove_first P (x # xs) = (if P x then xs else x # remove_first P xs)"

definition delete_one :: "('a \<Rightarrow> bool) \<Rightarrow> 'a list \<Rightarrow> 'a list \<times> nat" where
  "delete_one P xs = (remove_first P xs, if list_ex P xs then 1 else 0)"

fun update_one :: "('a \<Rightarrow> bool) \<Rightarrow> ('a \<Rightarrow> 'a) \<Rightarrow> 'a list \<Rightarrow> 'a list" where
  "update_one P f [] = []"
| "update_one P f (x # xs) = (if P x then f x # xs else x # update_one P f xs)"

text \<open>
  \<open>cursor.skip(offset).limit(limit)\<close>: a negative skip raises \<open>ValueError\<close>, a
  limit of 0 means no limit, and a negative limit is taken by its absolute value.
\<close>

definition skip_limit :: "int \<Rightarrow> int \<Rightarrow> 'a list \<Rightarrow> error + 'a list" where
  "skip_limit offset limit xs =
     (if offset < 0 then Inl ValueError
      else if limit = 0 then Inr (drop (nat offset) xs)
      else Inr (take (nat \<bar>limit\<bar>) (drop (nat offset) xs)))"

text \<open>Truth value of an \<open>Optional[str]\<close>: \<open>None\<close> and the empty string are false.\<close>

definition truthy :: "string option \<Rightarrow> bool" where
  "truthy v = (v \<noteq> None \<and> v \<noteq> Some [])"

section \<open>app/crud/comment.py\<close>

definition author_fields :: "user \<Rightarrow> author_public" where
  "author_fields u =
     \<lparr>a_id = uid u, a_username = username u, a_full_name = full_name u, a_bio = bio u\<rparr>"

definition comment_dict :: "comment \<Rightarrow> user option \<Rightarrow> comment_full" where
  "comment_dict c au =
     \<lparr>f_id = cid c, f_content = content c, f_post_id = post_id c,
      f_parent_id = parent_id c,
      f_author = map_option author_fields au,
      f_author_id = (case au of None \<Rightarrow> Some (author_id c) | Some u \<Rightarrow> None),
      f_created_at = created_at c, f_updated_at = updated_at c\<rparr>"

text \<open>The body of the \<open>try\<close> block of \<open>get_comment_by_id\<close>.\<close>

definition get_comment_by_id_body ::
  "oid_parser \<Rightarrow> database \<Rightarrow> string \<Rightarrow> error + comment_full option" where
  "get_comment_by_id_body oid db comment_id =
     (case oid comment_id of
        None \<Rightarrow> Inl InvalidId
      | Some k \<Rightarrow>
          (case find (\<lambda>c. cid c = k) (comments db) of
             None \<Rightarrow> Inr None
           | Some c \<Rightarrow>
               if author_id c \<noteq> [] then
                 (case oid (author_id c) of
                    None \<Rightarrow> Inl InvalidId
                  | Some a \<Rightarrow> Inr (Some (comment_dict c (find (\<lambda>u. uid u = a) (users db)))))
               else Inr (Some (comment_dict c None))))"

text \<open>\<open>except Exception: return None\<close>.\<close>

definition get_comment_by_id :: "oid_parser \<Rightarrow> database \<Rightarrow> string \<Rightarrow> comment_full option" where
  "get_comment_by_id oid db comment_id =
     (case get_comment_by_id_body oid db comment_id of Inl e \<Rightarrow> None | Inr r \<Rightarrow> r)"

text \<open>
  The recursive reads and deletes take the number of nested calls they may make; the
  result \<open>None\<close> says that this number did not suffice.
\<close>

fun get_comment_replies ::
      "oid_parser \<Rightarrow> nat \<Rightarrow> database \<Rightarrow> string \<Rightarrow> CommentWithReplies list option"
  and get_comment_replies_loop ::
      "oid_parser \<Rightarrow> nat \<Rightarrow> database \<Rightarrow> comment list \<Rightarrow> CommentWithReplies list option"
where
  "get_comment_replies oid 0 db parent = None"
| "get_comment_replies oid (Suc n) db parent =
     get_comment_replies_loop oid n db
       (sort_key created_at (filter (\<lambda>c. parent_id c = Some parent) (comments db)))"
| "get_comment_replies_loop oid n db [] = Some []"
| "get_comment_replies_loop oid n db (c # cs) =
     (case get_comment_by_id oid db (cid c) of
        None \<Rightarrow> get_comment_replies_loop oid n db cs
      | Some full_comment \<Rightarrow>
          (case get_comment_replies oid n db (cid c) of
             None \<Rightarrow> None
           | Some rs \<Rightarrow>
               (case get_comment_replies_loop oid n db cs of
                  None \<Rightarrow> None
                | Some rest \<Rightarrow> Some (CommentWithReplies full_comment rs # rest))))"

text \<open>
  An item of a page of \<open>get_comments_by_post\<close>: the dictionary and, when the key was
  set, its \<open>replies\<close>.
\<close>

type_synonym page_item = "comment_full \<times> CommentWithReplies list option"

fun get_comments_by_post_loop ::
  "oid_parser \<Rightarrow> nat \<Rightarrow> database \<Rightarrow> bool \<Rightarrow> comment list \<Rightarrow> page_item list option" where
  "get_comments_by_post_loop oid n db include_replies [] = Some []"
| "get_comments_by_post_loop oid n db include_replies (c # cs) =
     (case get_comment_by_id oid db (cid c) of
        None \<Rightarrow> get_comments_by_post_loop oid n db include_replies cs
      | Some full_comment \<Rightarrow>
          if include_replies \<and> \<not> truthy (parent_id c) then
            (case get_comment_replies oid n db (cid c) of
               None \<Rightarrow> None
             | Some rs \<Rightarrow>
                 map_option ((#) (full_comment, Some rs))
                   (get_comments_by_post_loop oid n db include_replies cs))
          else
            map_option ((#) (full_comment, None))
              (get_comments_by_post_loop oid n db include_replies cs))"

text \<open>
  An argument with a default value is an option: \<open>None\<close> is the call that leaves it
  out. \<open>limit: int = 50, offset: int = 0, include_replies: bool = False\<close>.
\<close>

definition get_comments_by_post ::
  "oid_parser \<Rightarrow> nat \<Rightarrow> database \<Rightarrow> string \<Rightarrow> int option \<Rightarrow> int option \<Rightarrow> bool option
     \<Rightarrow> (error + page_item list) option" where
  "get_comments_by_post oid n db pst limit_arg offset_arg include_replies_arg =
     (let limit = (case limit_arg of None \<Rightarrow> 50 | Some l \<Rightarrow> l);
          offset = (case offset_arg of None \<Rightarrow> 0 | Some k \<Rightarrow> k);
          include_replies = (case include_replies_arg of None \<Rightarrow> False | Some b \<Rightarrow> b);
          query = (\<lambda>c. post_id c = pst \<and> (include_replies \<or> parent_id c = None))
      in case skip_limit offset limit
                (sort_key (\<lambda>c. - created_at c) (filter query (comments db))) of
           Inl e \<Rightarrow> Some (Inl e)
         | Inr cursor \<Rightarrow>
             map_option Inr (get_comments_by_post_loop oid n db include_replies cursor))"

definition get_comments_count_by_post :: "database \<Rightarrow> string \<Rightarrow> nat" where
  "get_comments_count_by_post db pst = length (filter (\<lambda>c. post_id c = pst) (comments db))"

text \<open>The request bodies \<open>CommentCreate\<close> and \<open>CommentUpdate\<close>.\<close>

record CommentCreate =
  cc_content :: string
  cc_post_id :: string
  cc_parent_id :: "string option"

record CommentUpdate =
  cu_content :: string

text \<open>
  \<open>create_comment\<close>; \<open>now\<close> is \<open>datetime.utcnow()\<close> and \<open>new_id\<close> the \<open>_id\<close>
  that the store gives to the inserted document.
\<close>

definition create_comment ::
  "oid_parser \<Rightarrow> database \<Rightarrow> CommentCreate \<Rightarrow> string \<Rightarrow> int \<Rightarrow> string
     \<Rightarrow> error + database \<times> comment_full option" where
  "create_comment oid db comment_data author now new_id =
     (case oid (cc_post_id comment_data) of
        None \<Rightarrow> Inl InvalidId
      | Some pk \<Rightarrow>
          (case find (\<lambda>p. pid p = pk) (posts db) of
             None \<Rightarrow> Inl (HTTPException 404 ''Post not found'')
           | Some p \<Rightarrow>
               let parent_check =
                     (if truthy (cc_parent_id comment_data) then
                        (case oid (the (cc_parent_id comment_data)) of
                           None \<Rightarrow> Some InvalidId
                         | Some k \<Rightarrow>
                             (case find (\<lambda>c. cid c = k \<and> post_id c = cc_post_id comment_data)
                                     (comments db) of
                                None \<Rightarrow> Some (HTTPException 404
                                  ''Parent comment not found or belongs to different post'')
                              | Some c \<Rightarrow> None))
                      else None)
               in case parent_check of
                    Some e \<Rightarrow> Inl e
                  | None \<Rightarrow>
                      let comment_dict =
                            \<lparr>cid = new_id, content = cc_content comment_data,
                             post_id = cc_post_id comment_data,
                             parent_id = cc_parent_id comment_data,
                             author_id = author, created_at = now, updated_at = now\<rparr>;
                          db' = db\<lparr>comments := comments db @ [comment_dict]\<rparr>
                      in Inr (db', get_comment_by_id oid db' new_id)))"

definition update_comment ::
  "oid_parser \<Rightarrow> database \<Rightarrow> string \<Rightarrow> CommentUpdate \<Rightarrow> string \<Rightarrow> int
     \<Rightarrow> error + database \<times> comment_full option" where
  "update_comment oid db comment_id comment_data author now =
     (case oid comment_id of
        None \<Rightarrow> Inl InvalidId
      | Some k \<Rightarrow>
          (case find (\<lambda>c. cid c = k) (comments db) of
             None \<Rightarrow> Inr (db, None)
           | Some c \<Rightarrow>
               if author_id c \<noteq> author then
                 Inl (HTTPException 403 ''You do not have permission to update this comment'')
               else
                 let db' = db\<lparr>comments :=
                             update_one (\<lambda>c. cid c = k)
                               (\<lambda>c. c\<lparr>content := cu_content comment_data, updated_at := now\<rparr>)
                               (comments db)\<rparr>
                 in Inr (db', get_comment_by_id oid db' comment_id)))"

text \<open>
  \<open>delete_comment_replies\<close>: the cursor over the direct replies, and for each of them
  the recursive call, then \<open>delete_one\<close>. There \<open>comment_id\<close> is
  \<open>str(comment["_id"])\<close>, which \<open>ObjectId\<close> reads back as that \<open>_id\<close>.
\<close>

fun delete_comment_replies :: "nat \<Rightarrow> database \<Rightarrow> string \<Rightarrow> database option"
  and delete_comment_replies_loop :: "nat \<Rightarrow> database \<Rightarrow> comment list \<Rightarrow> database option"
where
  "delete_comment_replies 0 db parent = None"
| "delete_comment_replies (Suc n) db parent =
     delete_comment_replies_loop n db (filter (\<lambda>c. parent_id c = Some parent) (comments db))"
| "delete_comment_replies_loop n db [] = Some db"
| "delete_comment_replies_loop n db (c # cs) =
     (case delete_comment_replies n db (cid c) of
        None \<Rightarrow> None
      | Some db1 \<Rightarrow>
          delete_comment_replies_loop n
            (db1\<lparr>comments := fst (delete_one (\<lambda>d. cid d = cid c) (comments db1))\<rparr>) cs)"

text \<open>
  The body of the \<open>try\<close> block of \<open>delete_comment\<close>, with the exception it raises as
  a value, and \<open>delete_comment\<close> itself, whose \<open>except Exception: return False\<close>
  turns every exception of the body into \<open>False\<close>.
\<close>

definition delete_comment_body ::
  "oid_parser \<Rightarrow> nat \<Rightarrow> database \<Rightarrow> string \<Rightarrow> string option \<Rightarrow> bool
     \<Rightarrow> (database \<times> (error + bool)) option" where
  "delete_comment_body oid n db comment_id author is_admin =
     (case oid comment_id of
        None \<Rightarrow> Some (db, Inl InvalidId)
      | Some k \<Rightarrow>
          (case find (\<lambda>c. cid c = k) (comments db) of
             None \<Rightarrow> Some (db, Inr False)
           | Some c \<Rightarrow>
               if \<not> is_admin \<and> truthy author \<and> author_id c \<noteq> the author then
                 Some (db, Inl (HTTPException 403
                   ''You do not have permission to delete this comment''))
               else
                 (case delete_comment_replies n db comment_id of
                    None \<Rightarrow> None
                  | Some db1 \<Rightarrow>
                      let result = delete_one (\<lambda>d. cid d = k) (comments db1)
                      in Some (db1\<lparr>comments := fst result\<rparr>, Inr (snd result > 0)))))"

definition delete_comment ::
  "oid_parser \<Rightarrow> nat \<Rightarrow> database \<Rightarrow> string \<Rightarrow> string option \<Rightarrow> bool
     \<Rightarrow> (database \<times> bool) option" where
  "delete_comment oid n db comment_id author is_admin =
     map_option (\<lambda>(db', r). (db', case r of Inl e \<Rightarrow> False | Inr b \<Rightarrow> b))
       (delete_comment_body oid n db comment_id author is_admin)"

text \<open>An item of \<open>get_user_comments\<close>: the dictionary and its \<open>post_title\<close> key.\<close>

fun get_user_comments_loop ::
  "oid_parser \<Rightarrow> database \<Rightarrow> comment list \<Rightarrow> error + (comment_full \<times> string option) list" where
  "get_user_comments_loop oid db [] = Inr []"
| "get_user_comments_loop oid db (c # cs) =
     (case get_comment_by_id oid db (cid c) of
        None \<Rightarrow> get_user_comments_loop oid db cs
      | Some full_comment \<Rightarrow>
          if f_post_id full_comment \<noteq> [] then
            (case oid (f_post_id full_comment) of
               None \<Rightarrow> Inl InvalidId
             | Some pk \<Rightarrow>
                 map_sum id
                   ((#) (full_comment, map_option title (find (\<lambda>p. pid p = pk) (posts db))))
                   (get_user_comments_loop oid db cs))
          else map_sum id ((#) (full_comment, None)) (get_user_comments_loop oid db cs))"

text \<open>\<open>limit: int = 20, offset: int = 0\<close>.\<close>

definition get_user_comments ::
  "oid_parser \<Rightarrow> database \<Rightarrow> string \<Rightarrow> int option \<Rightarrow> int option
     \<Rightarrow> error + (comment_full \<times> string option) list" where
  "get_user_comments oid db user_id limit_arg offset_arg =
     (let limit = (case limit_arg of None \<Rightarrow> 20 | Some l \<Rightarrow> l);
          offset = (case offset_arg of None \<Rightarrow> 0 | Some k \<Rightarrow> k)
      in case skip_limit offset limit
                (sort_key (\<lambda>c. - created_at c)
                   (filter (\<lambda>c. author_id c = user_id) (comments db))) of
           Inl e \<Rightarrow> Inl e
         | Inr cursor \<Rightarrow> get_user_comments_loop oid db cursor)"

definition get_user_comments_count :: "database \<Rightarrow> string \<Rightarrow> nat" where
  "get_user_comments_count db user_id =
     length (filter (\<lambda>c. author_id c = user_id) (comments db))"

section \<open>app/crud/post.py\<close>

definition post_dict :: "post \<Rightarrow> user option \<Rightarrow> nat \<Rightarrow> post_full" where
  "post_dict p au comments_count =
     \<lparr>pf_id = pid p, pf_title = title p, pf_content = p_content p, pf_summary = summary p,
      pf_tags = tags p, pf_slug = slug p, pf_status = status p,
      pf_author = map_option author_fields au,
      pf_author_id = (case au of None \<Rightarrow> Some (p_author_id p) | Some u \<Rightarrow> None),
      pf_created_at = p_created_at p, pf_updated_at = p_updated_at p,
      pf_comments_count = comments_count\<rparr>"

text \<open>The body of the \<open>try\<close> block of \<open>get_post_by_id\<close>.\<close>

definition get_post_by_id_body ::
  "oid_parser \<Rightarrow> database \<Rightarrow> string \<Rightarrow> error + post_full option" where
  "get_post_by_id_body oid db pst =
     (case oid pst of
        None \<Rightarrow> Inl InvalidId
      | Some k \<Rightarrow>
          (case find (\<lambda>p. pid p = k) (posts db) of
             None \<Rightarrow> Inr None
           | Some p \<Rightarrow>
               let comments_count = length (filter (\<lambda>c. post_id c = pid p) (comments db))
               in if p_author_id p \<noteq> [] then
                    (case oid (p_author_id p) of
                       None \<Rightarrow> Inl InvalidId
                     | Some a \<Rightarrow>
                         Inr (Some (post_dict p (find (\<lambda>u. uid u = a) (users db))
                                      comments_count)))
                  else Inr (Some (post_dict p None comments_count))))"

definition get_post_by_id :: "oid_parser \<Rightarrow> database \<Rightarrow> string \<Rightarrow> post_full option" where
  "get_post_by_id oid db pst =
     (case get_post_by_id_body oid db pst of Inl e \<Rightarrow> None | Inr r \<Rightarrow> r)"

definition get_post_by_slug :: "oid_parser \<Rightarrow> database \<Rightarrow> string \<Rightarrow> post_full option" where
  "get_post_by_slug oid db s =
     (case find (\<lambda>p. slug p = s) (posts db) of
        None \<Rightarrow> None
      | Some p \<Rightarrow> get_post_by_id oid db (pid p))"

text \<open>The \<open>filters\<close> dictionary: a key that is absent is \<open>None\<close>.\<close>

record post_filters =
  flt_status :: "string option"
  flt_tags :: "string option"
  flt_author_id :: "string option"

definition posts_query :: "post_filters option \<Rightarrow> post \<Rightarrow> bool" where
  "posts_query filters p =
     (let f = (case filters of
                 None \<Rightarrow> \<lparr>flt_status = None, flt_tags = None, flt_author_id = None\<rparr>
               | Some f \<Rightarrow> f)
      in status p = (case flt_status f of None \<Rightarrow> ''published'' | Some s \<Rightarrow> s) \<and>
         (case flt_tags f of None \<Rightarrow> True | Some t \<Rightarrow> t \<in> set (tags p)) \<and>
         (case flt_author_id f of None \<Rightarrow> True | Some a \<Rightarrow> p_author_id p = a))"

text \<open>\<open>limit: int = 10, offset: int = 0, filters: Dict = None\<close>.\<close>

definition get_posts ::
  "oid_parser \<Rightarrow> database \<Rightarrow> int option \<Rightarrow> int option \<Rightarrow> post_filters option
     \<Rightarrow> error + post_full list" where
  "get_posts oid db limit_arg offset_arg filters =
     (let limit = (case limit_arg of None \<Rightarrow> 10 | Some l \<Rightarrow> l);
          offset = (case offset_arg of None \<Rightarrow> 0 | Some k \<Rightarrow> k)
      in map_sum id (\<lambda>cursor. List.map_filter (\<lambda>p. get_post_by_id oid db (pid p)) cursor)
           (skip_limit offset limit
              (sort_key (\<lambda>p. - p_created_at p) (filter (posts_query filters) (posts db)))))"

definition get_posts_count :: "database \<Rightarrow> post_filters option \<Rightarrow> nat" where
  "get_posts_count db filters = length (filter (posts_query filters) (posts db))"

text \<open>The request bodies \<open>PostCreate\<close> and \<open>PostUpdate\<close>.\<close>

record PostCreate =
  pc_title :: string
  pc_content :: string
  pc_summary :: "string option"
  pc_tags :: "string list"
  pc_slug :: "string option"
  pc_status :: string

record PostUpdate =
  pu_title :: "string option"
  pu_content :: "string option"
  pu_summary :: "string option"
  pu_tags :: "string list option"
  pu_slug :: "string option"
  pu_status :: "string option"

text \<open>
  \<open>create_post\<close>. \<open>slugify\<close> is the function of the \<open>slugify\<close> package that
  \<open>generate_slug\<close> calls; it is a parameter.
\<close>

definition create_post ::
  "oid_parser \<Rightarrow> (string \<Rightarrow> string) \<Rightarrow> database \<Rightarrow> PostCreate \<Rightarrow> string \<Rightarrow> int \<Rightarrow> string
     \<Rightarrow> error + database \<times> post_full option" where
  "create_post oid slugify db post_data author now new_id =
     (let slug_step =
            (if \<not> truthy (pc_slug post_data) then Inr (slugify (pc_title post_data))
             else if \<not> is_valid_slug (the (pc_slug post_data)) then
               Inl (HTTPException 400 ''Invalid slug format'')
             else Inr (the (pc_slug post_data)))
      in case slug_step of
           Inl e \<Rightarrow> Inl e
         | Inr slug' \<Rightarrow>
             if find (\<lambda>p. slug p = slug') (posts db) \<noteq> None then
               Inl (HTTPException 400 ''Post with this slug already exists'')
             else
               let summary' = (if \<not> truthy (pc_summary post_data)
                               then get_summary_from_content (pc_content post_data) 200
                               else the (pc_summary post_data));
                   post_dict =
                     \<lparr>pid = new_id, title = pc_title post_data,
                      p_content = pc_content post_data,
                      summary = summary', tags = pc_tags post_data, slug = slug',
                      status = pc_status post_data, p_author_id = author,
                      p_created_at = now, p_updated_at = now\<rparr>;
                   db' = db\<lparr>posts := posts db @ [post_dict]\<rparr>
               in Inr (db', get_post_by_id oid db' new_id))"

text \<open>
  \<open>update_post\<close>. \<open>update_data\<close> holds the fields of the request that are not
  \<open>None\<close>; \<open>slug_step\<close> is the block that handles a changed slug and gives the slug
  to store, if any.
\<close>

definition update_post ::
  "oid_parser \<Rightarrow> (string \<Rightarrow> string) \<Rightarrow> database \<Rightarrow> string \<Rightarrow> PostUpdate \<Rightarrow> string option \<Rightarrow> int
     \<Rightarrow> error + database \<times> post_full option" where
  "update_post oid slugify db pst post_data author now =
     (case oid pst of
        None \<Rightarrow> Inl InvalidId
      | Some k \<Rightarrow>
          (case find (\<lambda>p. pid p = k) (posts db) of
             None \<Rightarrow> Inr (db, None)
           | Some p \<Rightarrow>
               if truthy author \<and> p_author_id p \<noteq> the author then
                 Inl (HTTPException 403 ''You do not have permission to update this post'')
               else
                 let slug_step =
                       (case pu_slug post_data of
                          None \<Rightarrow> Inr None
                        | Some s \<Rightarrow>
                            let checked =
                                  (if s = [] then
                                     Inr (slugify (if truthy (pu_title post_data)
                                                   then the (pu_title post_data) else title p))
                                   else if \<not> is_valid_slug s then
                                     Inl (HTTPException 400 ''Invalid slug format'')
                                   else Inr s)
                            in case checked of
                                 Inl e \<Rightarrow> Inl e
                               | Inr s' \<Rightarrow>
                                   if s' \<noteq> slug p \<and> find (\<lambda>q. slug q = s') (posts db) \<noteq> None
                                   then Inl (HTTPException 400
                                          ''Post with this slug already exists'')
                                   else Inr (Some s'))
                 in case slug_step of
                      Inl e \<Rightarrow> Inl e
                    | Inr new_slug \<Rightarrow>
                        let new_summary =
                              (case pu_summary post_data of
                                 Some v \<Rightarrow> Some v
                               | None \<Rightarrow>
                                   map_option (\<lambda>c. get_summary_from_content c 200)
                                     (pu_content post_data));
                            set_fields = (\<lambda>q. q
                              \<lparr>title := (case pu_title post_data of None \<Rightarrow> title q | Some v \<Rightarrow> v),
                               p_content :=
                                 (case pu_content post_data of None \<Rightarrow> p_content q | Some v \<Rightarrow> v),
                               summary := (case new_summary of None \<Rightarrow> summary q | Some v \<Rightarrow> v),
                               tags := (case pu_tags post_data of None \<Rightarrow> tags q | Some v \<Rightarrow> v),
                               slug := (case new_slug of None \<Rightarrow> slug q | Some v \<Rightarrow> v),
                               status :=
                                 (case pu_status post_data of None \<Rightarrow> status q | Some v \<Rightarrow> v),
                               p_updated_at := now\<rparr>);
                            db' = db\<lparr>posts := update_one (\<lambda>q. pid q = k) set_fields (posts db)\<rparr>
                        in Inr (db', get_post_by_id oid db' pst)))"

section \<open>app/core/deps.py\<close>

text \<open>
  \<open>pagination_params\<close> returns its two arguments as a dictionary and does nothing
  else. The bounds and the defaults are written as \<open>Query(10, ge=1, le=100)\<close> and
  \<open>Query(0, ge=0)\<close> in the annotations of the arguments; they are declarations for
  the framework, and no statement of the function reads them.
\<close>

record pagination =
  pg_limit :: int
  pg_offset :: int

definition pagination_params :: "int \<Rightarrow> int \<Rightarrow> pagination" where
  "pagination_params limit offset = \<lparr>pg_limit = limit, pg_offset = offset\<rparr>"

section \<open>app/routes\<close>

text \<open>
  A route gives the dictionary it returns, before the response model is applied, or
  the exception it raises.
\<close>

definition update_comment_route ::
  "oid_parser \<Rightarrow> database \<Rightarrow> string \<Rightarrow> CommentUpdate \<Rightarrow> current_user \<Rightarrow> int
     \<Rightarrow> error + database \<times> comment_full option" where
  "update_comment_route oid db comment_id comment_data cu now =
     (case get_comment_by_id oid db comment_id of
        None \<Rightarrow> Inl (HTTPException 404 (''Comment with ID '' @ comment_id @ '' not found''))
      | Some c \<Rightarrow>
          if map_option a_id (f_author c) \<noteq> Some (cu_id cu) \<and> cu_role cu \<noteq> ''admin'' then
            Inl (HTTPException 403 ''You do not have permission to update this comment'')
          else update_comment oid db comment_id comment_data (cu_id cu) now)"

definition delete_comment_route ::
  "oid_parser \<Rightarrow> nat \<Rightarrow> database \<Rightarrow> string \<Rightarrow> current_user
     \<Rightarrow> (database \<times> (error + unit)) option" where
  "delete_comment_route oid n db comment_id cu =
     (case get_comment_by_id oid db comment_id of
        None \<Rightarrow>
          Some (db, Inl (HTTPException 404 (''Comment with ID '' @ comment_id @ '' not found'')))
      | Some c \<Rightarrow>
          let is_author = (map_option a_id (f_author c) = Some (cu_id cu));
              is_admin = (cu_role cu = ''admin'')
          in case delete_comment oid n db comment_id
                    (if \<not> is_admin then Some (cu_id cu) else None) is_admin of
               None \<Rightarrow> None
             | Some (db', success) \<Rightarrow>
                 if \<not> success then
                   Some (db', Inl (HTTPException 500 ''Failed to delete comment''))
                 else Some (db', Inr ()))"

section \<open>Comment forests\<close>

text \<open>
  \<open>descendant oid cs x c\<close>: the stored comment \<open>c\<close> is a transitive reply to the
  comment whose \<open>_id\<close> is \<open>x\<close>. The parent of a comment is the comment that its
  \<open>parent_id\<close> denotes; \<open>create_comment\<close> looks it up through \<open>ObjectId\<close>, and
  so does this relation.
\<close>

inductive descendant :: "oid_parser \<Rightarrow> comment list \<Rightarrow> string \<Rightarrow> comment \<Rightarrow> bool" for oid :: oid_parser and cs :: "comment list" and x :: string where
  reply: "c \<in> set cs \<Longrightarrow> parent_id c = Some p \<Longrightarrow> oid p = Some x \<Longrightarrow> descendant oid cs x c"
| reply_below: "descendant oid cs x d \<Longrightarrow> c \<in> set cs \<Longrightarrow> parent_id c = Some p \<Longrightarrow> oid p = Some (cid d) \<Longrightarrow> descendant oid cs x c"

text \<open>
  \<open>reached cs x c\<close>: the queries of \<open>get_comment_replies\<close> and
  \<open>delete_comment_replies\<close> get from the string \<open>x\<close> to the stored comment \<open>c\<close>.
  Each query finds the comments whose stored \<open>parent_id\<close> is, character by
  character, the string asked for: first \<open>x\<close>, then the \<open>_id\<close> of a comment found.
\<close>

inductive reached :: "comment list \<Rightarrow> string \<Rightarrow> comment \<Rightarrow> bool" for cs :: "comment list" and x :: string where
  direct: "c \<in> set cs \<Longrightarrow> parent_id c = Some x \<Longrightarrow> reached cs x c"
| nested: "reached cs x d \<Longrightarrow> c \<in> set cs \<Longrightarrow> parent_id c = Some (cid d) \<Longrightarrow> reached cs x c"

text \<open>
  The stores that inserting and deleting comments produce: ids are unique, and the
  parent of a comment is neither the comment itself nor one inserted after it.
\<close>

fun parents_first :: "comment list \<Rightarrow> bool" where
  "parents_first [] = True"
| "parents_first (c # cs) =
     (parent_id c \<notin> set (map (\<lambda>d. Some (cid d)) (c # cs)) \<and> parents_first cs)"

definition forest :: "comment list \<Rightarrow> bool" where
  "forest cs = (distinct (map cid cs) \<and> parents_first cs)"

text \<open>
  Every parent reference is stored in the spelling in which \<open>ObjectId\<close> gives it
  back. Then the two relations agree.
\<close>

definition canonical_parents :: "oid_parser \<Rightarrow> comment list \<Rightarrow> bool" where
  "canonical_parents oid cs =
     list_all (\<lambda>c. case parent_id c of None \<Rightarrow> True | Some p \<Rightarrow> oid p = Some p) cs"

text \<open>
  The index of the comment with id \<open>p\<close> in the collection (its length when there is
  none).
\<close>

definition pos :: "comment list \<Rightarrow> string \<Rightarrow> nat" where
  "pos cs p = length (takeWhile (\<lambda>c. cid c \<noteq> p) cs)"

text \<open>
  Stored ids are object ids: \<open>ObjectId\<close> reads the \<open>_id\<close> of a stored comment back,
  and reads the author id that was stored with it.
\<close>

definition readable :: "oid_parser \<Rightarrow> comment list \<Rightarrow> bool" where
  "readable oid cs = list_all (\<lambda>c. oid (cid c) = Some (cid c) \<and> oid (author_id c) \<noteq> None) cs"

text \<open>
  The author document that a read of the stored comment \<open>c\<close> looks up and embeds.
\<close>

definition author_doc :: "oid_parser \<Rightarrow> database \<Rightarrow> comment \<Rightarrow> user option" where
  "author_doc oid db c =
     (if author_id c \<noteq> [] then find (\<lambda>u. uid u = the (oid (author_id c))) (users db) else None)"

text \<open>
  The page item that \<open>get_comments_by_post\<close> builds for the stored comment \<open>c\<close>.
\<close>

definition page_item_of :: "oid_parser \<Rightarrow> nat \<Rightarrow> database \<Rightarrow> bool \<Rightarrow> comment \<Rightarrow> page_item" where
  "page_item_of oid n db incl c =
     (comment_dict c (author_doc oid db c),
      if incl \<and> \<not> truthy (parent_id c) then get_comment_replies oid n db (cid c) else None)"

text \<open>All dictionaries of a reply tree, and the order of the replies at every level.\<close>

fun flatten :: "CommentWithReplies \<Rightarrow> comment_full list" where
  "flatten (CommentWithReplies d rs) = d # concat (map flatten rs)"

fun ascending :: "CommentWithReplies \<Rightarrow> bool" where
  "ascending (CommentWithReplies d rs) =
     (sorted (map (\<lambda>r. f_created_at (node r)) rs) \<and> list_all ascending rs)"

section \<open>A sample database\<close>

text \<open>
  An \<open>ObjectId\<close> reader for the examples: it accepts the strings of 24 lower-case
  hexadecimal digits and gives them back.
\<close>

definition is_hex :: "char \<Rightarrow> bool" where
  "is_hex c = (CHR ''0'' \<le> c \<and> c \<le> CHR ''9'' \<or> CHR ''a'' \<le> c \<and> c \<le> CHR ''f'')"

definition hex_oid :: oid_parser where
  "hex_oid s = (if length s = 24 \<and> list_all is_hex s then Some s else None)"

definition alice_id :: string where "alice_id = ''aaaaaaaaaaaaaaaaaaaaaaaa''"
definition bob_id :: string where "bob_id = ''bbbbbbbbbbbbbbbbbbbbbbbb''"
definition carol_id :: string where "carol_id = ''cccccccccccccccccccccccc''"
definition post_1_id :: string where "post_1_id = ''000000000000000000000001''"
definition comment_1_id :: string where "comment_1_id = ''100000000000000000000001''"
definition comment_2_id :: string where "comment_2_id = ''100000000000000000000002''"
definition comment_3_id :: string where "comment_3_id = ''100000000000000000000003''"
definition comment_4_id :: string where "comment_4_id = ''100000000000000000000004''"

definition alice :: user where
  "alice = \<lparr>uid = alice_id, username = ''alice'', full_name = None, bio = None,
            password = ''x'', role = ''user''\<rparr>"

definition bob :: user where
  "bob = \<lparr>uid = bob_id, username = ''bob'', full_name = None, bio = None,
          password = ''y'', role = ''user''\<rparr>"

definition carol :: user where
  "carol = \<lparr>uid = carol_id, username = ''carol'', full_name = None, bio = None,
            password = ''z'', role = ''admin''\<rparr>"

definition post_1 :: post where
  "post_1 = \<lparr>pid = post_1_id, title = ''Hello World!'', p_content = ''hi'', summary = ''hi'',
             tags = [], slug = ''hello-world'', status = ''published'',
             p_author_id = alice_id, p_created_at = 1, p_updated_at = 1\<rparr>"

text \<open>Alice's root comment, Bob's reply to it, Alice's reply to Bob, and a second root.\<close>

definition comment_1 :: comment where
  "comment_1 = \<lparr>cid = comment_1_id, content = ''first'', post_id = post_1_id,
                parent_id = None, author_id = alice_id, created_at = 10, updated_at = 10\<rparr>"

definition comment_2 :: comment where
  "comment_2 = \<lparr>cid = comment_2_id, content = ''reply'', post_id = post_1_id,
                parent_id = Some comment_1_id, author_id = bob_id,
                created_at = 20, updated_at = 20\<rparr>"

definition comment_3 :: comment where
  "comment_3 = \<lparr>cid = comment_3_id, content = ''reply to reply'', post_id = post_1_id,
                parent_id = Some comment_2_id, author_id = alice_id,
                created_at = 30, updated_at = 30\<rparr>"

definition comment_4 :: comment where
  "comment_4 = \<lparr>cid = comment_4_id, content = ''second'', post_id = post_1_id,
                parent_id = None, author_id = bob_id, created_at = 40, updated_at = 40\<rparr>"

definition sample_db :: database where
  "sample_db = \<lparr>users = [alice, bob, carol], posts = [post_1],
                comments = [comment_1, comment_2, comment_3, comment_4]\<rparr>"

definition as_user :: "user \<Rightarrow> current_user" where
  "as_user u = \<lparr>cu_id = uid u, cu_role = role u\<rparr>"

text \<open>Request bodies without summary and slug, and two contents of 250 characters.\<close>

definition post_2_id :: string where "post_2_id = ''000000000000000000000002''"

definition sample_post_create :: "string \<Rightarrow> PostCreate" where
  "sample_post_create cont =
     \<lparr>pc_title = ''T'', pc_content = cont, pc_summary = None, pc_tags = [],
      pc_slug = None, pc_status = ''draft''\<rparr>"

definition long_content :: string where
  "long_content = replicate 195 (CHR ''a'') @ [CHR '' '', CHR 0x09, CHR '' ''] @ replicate 52 (CHR ''b'')"

definition tab_content :: string where
  "tab_content = replicate 100 (CHR ''a'') @ [CHR 0x09] @ replicate 149 (CHR ''b'')"

text \<open>
  A second reader, \<open>ObjectId\<close> on the strings of 24 hexadecimal digits: it accepts the
  digits in either case, and \<open>str\<close> of the result has them in lower case.
\<close>

definition is_hex_any :: "char \<Rightarrow> bool" where
  "is_hex_any c = (is_hex c \<or> CHR ''A'' \<le> c \<and> c \<le> CHR ''F'')"

definition hex_lower :: "char \<Rightarrow> char" where
  "hex_lower c =
     (if c = CHR ''A'' then CHR ''a'' else if c = CHR ''B'' then CHR ''b''
      else if c = CHR ''C'' then CHR ''c'' else if c = CHR ''D'' then CHR ''d''
      else if c = CHR ''E'' then CHR ''e'' else if c = CHR ''F'' then CHR ''f'' else c)"

definition object_id :: oid_parser where
  "object_id s = (if length s = 24 \<and> list_all is_hex_any s then Some (map hex_lower s) else None)"

text \<open>
  A thread on the sample post: a root comment, a reply stored with the id of the root
  as \<open>str\<close> gives it, and the request and the stored document of a second reply whose
  \<open>parent_id\<close> spells the same id in upper case.
\<close>

definition root_id :: string where "root_id = ''c0ffee000000000000000001''"
definition root_id_upper :: string where "root_id_upper = ''C0FFEE000000000000000001''"
definition reply_id :: string where "reply_id = ''c0ffee000000000000000002''"
definition shout_id :: string where "shout_id = ''c0ffee000000000000000003''"

definition thread_root :: comment where
  "thread_root = \<lparr>cid = root_id, content = ''root'', post_id = post_1_id,
                  parent_id = None, author_id = alice_id, created_at = 10, updated_at = 10\<rparr>"

definition thread_reply :: comment where
  "thread_reply = \<lparr>cid = reply_id, content = ''reply'', post_id = post_1_id,
                   parent_id = Some root_id, author_id = bob_id,
                   created_at = 20, updated_at = 20\<rparr>"

definition thread_shout :: comment where
  "thread_shout = \<lparr>cid = shout_id, content = ''SHOUT'', post_id = post_1_id,
                   parent_id = Some root_id_upper, author_id = bob_id,
                   created_at = 30, updated_at = 30\<rparr>"

definition shout_request :: CommentCreate where
  "shout_request = \<lparr>cc_content = ''SHOUT'', cc_post_id = post_1_id,
                    cc_parent_id = Some root_id_upper\<rparr>"

definition thread_db :: database where
  "thread_db = \<lparr>users = [alice, bob, carol], posts = [post_1],
                comments = [thread_root, thread_reply]\<rparr>"

lemmas sample_defs =
  sample_db_def alice_def bob_def carol_def post_1_def comment_1_def comment_2_def
  comment_3_def comment_4_def alice_id_def bob_id_def carol_id_def post_1_id_def
  comment_1_id_def comment_2_id_def comment_3_id_def comment_4_id_def as_user_def

lemmas thread_defs =
  thread_db_def thread_root_def thread_reply_def thread_shout_def shout_request_def
  root_id_def root_id_upper_def reply_id_def shout_id_def
  object_id_def is_hex_any_def hex_lower_def is_hex_def

section \<open>Comments reached through parent ids\<close>

lemma reached_stored: "reached cs x c \<Longrightarrow> c \<in> set cs"
  by (induction rule: reached.induct) auto

lemma reached_mono:
  "reached cs x c \<Longrightarrow> set cs \<subseteq> set cs' \<Longrightarrow> reached cs' x c"
  by (induction rule: reached.induct) (auto intro: reached.intros)

lemma reached_trans:
  "reached cs (cid d) c \<Longrightarrow> reached cs x d \<Longrightarrow> reached cs x c"
  by (induction rule: reached.induct) (auto intro: reached.intros)

lemma reached_via_child:
  "reached cs x c \<longleftrightarrow>
     (c \<in> set cs \<and> parent_id c = Some x) \<or>
     (\<exists>k\<in>set cs. parent_id k = Some x \<and> reached cs (cid k) c)"
proof
  assume "reached cs x c"
  then show "(c \<in> set cs \<and> parent_id c = Some x) \<or>
     (\<exists>k\<in>set cs. parent_id k = Some x \<and> reached cs (cid k) c)"
    by (induction rule: reached.induct) (auto intro: reached.intros)
next
  assume "(c \<in> set cs \<and> parent_id c = Some x) \<or>
     (\<exists>k\<in>set cs. parent_id k = Some x \<and> reached cs (cid k) c)"
  then show "reached cs x c"
    by (auto intro: reached.direct reached_trans)
qed

lemma pos_Cons: "pos (a # cs) p = (if cid a = p then 0 else Suc (pos cs p))"
  by (simp add: pos_def)

lemma parent_earlier:
  "parents_first cs \<Longrightarrow> distinct (map cid cs) \<Longrightarrow> c \<in> set cs \<Longrightarrow> parent_id c = Some p
     \<Longrightarrow> p \<in> cid ` set cs \<Longrightarrow> pos cs p < pos cs (cid c)"
proof (induction cs)
  case Nil
  then show ?case by simp
next
  case (Cons a cs)
  show ?case
  proof (cases "c = a")
    case True
    with Cons.prems show ?thesis by (auto simp: image_iff)
  next
    case False
    with Cons.prems have c: "c \<in> set cs" by simp
    from Cons.prems(2) c have ne: "cid c \<noteq> cid a" by (auto simp: image_iff)
    show ?thesis
    proof (cases "p = cid a")
      case True
      with ne show ?thesis by (simp add: pos_Cons)
    next
      case False
      with Cons.prems c have "pos cs p < pos cs (cid c)"
        by (intro Cons.IH) auto
      with False ne show ?thesis by (simp add: pos_Cons)
    qed
  qed
qed

lemma reached_later:
  assumes "forest cs" "reached cs x c"
  shows "x \<in> cid ` set cs \<Longrightarrow> pos cs x < pos cs (cid c)"
  using assms(2)
proof (induction rule: reached.induct)
  case (direct c)
  with assms(1) show ?case by (auto simp: forest_def intro: parent_earlier)
next
  case (nested d c)
  have "d \<in> set cs" using nested.hyps(1) by (rule reached_stored)
  then have "pos cs (cid d) < pos cs (cid c)"
    using assms(1) nested.hyps(2,3) by (auto simp: forest_def intro: parent_earlier)
  with nested show ?case by auto
qed

lemma reached_irrefl: "forest cs \<Longrightarrow> \<not> reached cs (cid c) c"
  using reached_later[of cs "cid c" c] reached_stored[of cs "cid c" c] by auto

lemma siblings_independent:
  assumes "forest cs" "k \<in> set cs" "parent_id k = Some x" "parent_id k' = Some x"
  shows "\<not> reached cs (cid k) k'"
proof
  assume "reached cs (cid k) k'"
  then show False
  proof (cases rule: reached.cases)
    case direct
    with assms have "reached cs (cid k) k" by (auto intro: reached.direct)
    with assms(1) show False by (simp add: reached_irrefl)
  next
    case (nested d)
    with assms have "reached cs (cid d) k" by (auto intro: reached.direct)
    with nested have "reached cs (cid k) k" by (auto intro: reached_trans)
    with assms(1) show False by (simp add: reached_irrefl)
  qed
qed

lemma parents_first_filter: "parents_first cs \<Longrightarrow> parents_first (filter P cs)"
  by (induction cs) (auto)

lemma forest_filter: "forest cs \<Longrightarrow> forest (filter P cs)"
  by (simp add: forest_def parents_first_filter distinct_map_filter)

lemma remove_first_by_id:
  "distinct (map cid cs) \<Longrightarrow> remove_first (\<lambda>d. cid d = i) cs = filter (\<lambda>d. cid d \<noteq> i) cs"
proof (induction cs)
  case Nil
  then show ?case by simp
next
  case (Cons a cs)
  show ?case
  proof (cases "cid a = i")
    case True
    with Cons.prems have "\<forall>d\<in>set cs. cid d \<noteq> i" by (auto simp: image_iff)
    then have "filter (\<lambda>d. cid d \<noteq> i) cs = cs" by (simp add: filter_id_conv)
    with True show ?thesis by simp
  next
    case False
    with Cons show ?thesis by simp
  qed
qed

lemma length_filter_mono:
  "(\<And>x. x \<in> set xs \<Longrightarrow> P x \<Longrightarrow> Q x) \<Longrightarrow> length (filter P xs) \<le> length (filter Q xs)"
  by (induction xs) auto

lemma length_filter_strict:
  assumes "\<And>x. x \<in> set xs \<Longrightarrow> P x \<Longrightarrow> Q x" "k \<in> set xs" "Q k" "\<not> P k"
  shows "length (filter P xs) < length (filter Q xs)"
proof -
  have "filter P xs = filter P (filter Q xs)"
    using assms(1) by (auto simp: filter_filter intro: filter_cong)
  moreover have "length (filter P (filter Q xs)) < length (filter Q xs)"
    using assms(2-4) by (intro length_filter_less[of k]) auto
  ultimately show ?thesis by simp
qed

lemma reached_filter:
  assumes "reached cs x c" "P c"
    and closed: "\<And>d e. d \<in> set cs \<Longrightarrow> \<not> P d \<Longrightarrow> e \<in> set cs \<Longrightarrow> parent_id e = Some (cid d) \<Longrightarrow> \<not> P e"
  shows "reached (filter P cs) x c"
  using assms(1,2)
proof (induction rule: reached.induct)
  case (direct c)
  then show ?case by (auto intro: reached.direct)
next
  case (nested d c)
  have "d \<in> set cs" using nested.hyps(1) by (rule reached_stored)
  with closed nested have "P d" by blast
  with nested have "reached (filter P cs) x d" by simp
  with nested show ?case by (auto intro: reached.nested)
qed

lemma child_fewer_reached:
  assumes "forest cs" "k \<in> set cs" "parent_id k = Some x"
  shows "length (filter (reached cs (cid k)) cs) < length (filter (reached cs x) cs)"
proof (rule length_filter_strict[of _ _ _ k])
  fix c assume "c \<in> set cs" "reached cs (cid k) c"
  with assms show "reached cs x c" by (auto simp: reached_via_child[of cs x c])
next
  show "k \<in> set cs" by fact
  show "reached cs x k" using assms by (auto intro: reached.direct)
  show "\<not> reached cs (cid k) k" using assms(1) by (rule reached_irrefl)
qed

text \<open>Removing a comment together with all comments reached from it keeps the other subtrees.\<close>

lemma reached_after_removal:
  assumes "forest cs" "k \<in> set cs" "c \<noteq> k" "\<not> reached cs (cid k) c"
  shows "reached (filter (\<lambda>c. c \<noteq> k \<and> \<not> reached cs (cid k) c) cs) y c \<longleftrightarrow> reached cs y c"
proof
  assume "reached (filter (\<lambda>c. c \<noteq> k \<and> \<not> reached cs (cid k) c) cs) y c"
  then show "reached cs y c" by (rule reached_mono) auto
next
  assume "reached cs y c"
  then show "reached (filter (\<lambda>c. c \<noteq> k \<and> \<not> reached cs (cid k) c) cs) y c"
  proof (rule reached_filter)
    show "c \<noteq> k \<and> \<not> reached cs (cid k) c" using assms by simp
  next
    fix d e
    assume d: "d \<in> set cs" "\<not> (d \<noteq> k \<and> \<not> reached cs (cid k) d)"
      and e: "e \<in> set cs" "parent_id e = Some (cid d)"
    from d e have "reached cs (cid k) e"
      by (auto intro: reached.intros)
    then show "\<not> (e \<noteq> k \<and> \<not> reached cs (cid k) e)" by simp
  qed
qed

text \<open>
  When every stored \<open>parent_id\<close> is the string that \<open>str(ObjectId(parent_id))\<close> gives,
  the descendants of \<open>x\<close> are the comments reached from \<open>x\<close> through the stored
  strings.
\<close>

lemma canonical_parentsD:
  "canonical_parents oid cs \<Longrightarrow> c \<in> set cs \<Longrightarrow> parent_id c = Some p \<Longrightarrow> oid p = Some p"
  by (auto simp: canonical_parents_def list_all_iff split: option.splits)

lemma canonical_parents_subset:
  "canonical_parents oid cs \<Longrightarrow> set ds \<subseteq> set cs \<Longrightarrow> canonical_parents oid ds"
  by (auto simp: canonical_parents_def list_all_iff)

lemma descendant_is_reached:
  assumes "canonical_parents oid cs"
  shows "descendant oid cs x c \<longleftrightarrow> reached cs x c"
proof
  assume "descendant oid cs x c"
  then show "reached cs x c"
  proof induction
    case (reply c p)
    from canonical_parentsD[OF assms reply(1,2)] reply(3) have "p = x" by simp
    with reply(1,2) show ?case by (auto intro: reached.direct)
  next
    case (reply_below d c p)
    from canonical_parentsD[OF assms reply_below(2,3)] reply_below(4) have "p = cid d" by simp
    with reply_below show ?case by (auto intro: reached.nested)
  qed
next
  assume "reached cs x c"
  then show "descendant oid cs x c"
  proof induction
    case (direct c)
    from canonical_parentsD[OF assms direct] direct show ?case
      by (auto intro: descendant.reply)
  next
    case (nested d c)
    from canonical_parentsD[OF assms nested(2,3)] nested show ?case
      by (auto intro: descendant.reply_below)
  qed
qed

text \<open>
  In the thread, both replies are descendants of the root, whichever comments are
  stored beside them.
\<close>

lemma object_id_upper: "object_id root_id_upper = Some root_id"
  by (simp add: thread_defs)

lemma object_id_root: "object_id root_id = Some root_id"
  by (simp add: thread_defs)

lemma shout_is_descendant:
  "thread_shout \<in> set cs \<Longrightarrow> descendant object_id cs root_id thread_shout"
  by (rule descendant.reply[where p = root_id_upper])
     (simp_all add: object_id_upper, simp add: thread_shout_def)

lemma reply_is_descendant:
  "thread_reply \<in> set cs \<Longrightarrow> descendant object_id cs root_id thread_reply"
  by (rule descendant.reply[where p = root_id])
     (simp_all add: object_id_root, simp add: thread_reply_def)

section \<open>The forest is kept\<close>

text \<open>
  Deleting comments keeps a forest (\<open>forest_filter\<close>). So does \<open>create_comment\<close>,
  when the store gives the new comment an object id that no comment has and none
  refers to.
\<close>

lemma parents_first_snoc:
  "parents_first (cs @ [n]) \<longleftrightarrow>
     parents_first cs \<and> (\<forall>c\<in>set cs. parent_id c \<noteq> Some (cid n)) \<and> parent_id n \<noteq> Some (cid n)"
  by (induction cs) auto

lemma create_comment_keeps_forest:
  assumes "forest (comments db)" and "readable oid (comments db)"
    and "create_comment oid db comment_data author now new_id = Inr (db', r)"
    and "new_id \<notin> cid ` set (comments db)" and "Some new_id \<notin> parent_id ` set (comments db)"
    and "oid new_id = Some new_id" and "new_id \<noteq> []" and "oid author \<noteq> None"
  shows "forest (comments db') \<and> readable oid (comments db')"
proof -
  define n where "n = \<lparr>cid = new_id, content = cc_content comment_data,
       post_id = cc_post_id comment_data, parent_id = cc_parent_id comment_data,
       author_id = author, created_at = now, updated_at = now\<rparr>"
  from assms(3) have db': "comments db' = comments db @ [n]"
    by (auto simp: create_comment_def Let_def n_def split: option.splits if_splits)
  have par: "cc_parent_id comment_data \<noteq> Some new_id"
  proof
    assume p: "cc_parent_id comment_data = Some new_id"
    with assms(7) have "truthy (cc_parent_id comment_data)" by (simp add: truthy_def)
    with assms(3) p assms(6) obtain c where
      "find (\<lambda>c. cid c = new_id \<and> post_id c = cc_post_id comment_data) (comments db) = Some c"
      by (auto simp: create_comment_def Let_def split: option.splits if_splits)
    then have "c \<in> set (comments db)" "cid c = new_id"
      by (auto simp: find_Some_iff in_set_conv_nth)
    with assms(4) show False by auto
  qed
  have "distinct (map cid (comments db'))"
    using assms(1,4) by (simp add: db' forest_def n_def)
  moreover have "parents_first (comments db')"
    using assms(1,5) par by (auto simp: db' forest_def parents_first_snoc n_def image_iff)
  moreover have "readable oid (comments db')"
    using assms(2,6,8) by (simp add: db' readable_def n_def)
  ultimately show ?thesis by (simp add: forest_def)
qed

section \<open>Cascading delete\<close>

lemma same_id_same_comment:
  "distinct (map cid cs) \<Longrightarrow> c \<in> set cs \<Longrightarrow> k \<in> set cs \<Longrightarrow> cid c = cid k \<longleftrightarrow> c = k"
  by (auto simp: distinct_map inj_on_def)

lemma delete_loop_correct:
  assumes IH: "\<And>db x. forest (comments db) \<Longrightarrow>
      length (filter (reached (comments db) x) (comments db)) < n \<Longrightarrow>
      delete_comment_replies n db x =
        Some (db\<lparr>comments := filter (\<lambda>c. \<not> reached (comments db) x c) (comments db)\<rparr>)"
  shows "forest (comments db) \<Longrightarrow> distinct ks \<Longrightarrow> set ks \<subseteq> set (comments db) \<Longrightarrow>
     (\<forall>k\<in>set ks. length (filter (reached (comments db) (cid k)) (comments db)) < n) \<Longrightarrow>
     (\<forall>k\<in>set ks. \<forall>k'\<in>set ks. \<not> reached (comments db) (cid k) k') \<Longrightarrow>
     delete_comment_replies_loop n db ks =
       Some (db\<lparr>comments :=
         filter (\<lambda>c. \<not> (\<exists>k\<in>set ks. c = k \<or> reached (comments db) (cid k) c)) (comments db)\<rparr>)"
proof (induction ks arbitrary: db)
  case Nil
  then show ?case by simp
next
  case (Cons k ks)
  define cs where "cs = comments db"
  define keep where "keep = (\<lambda>c. c \<noteq> k \<and> \<not> reached cs (cid k) c)"
  define db2 where "db2 = db\<lparr>comments := filter keep cs\<rparr>"
  have fo: "forest cs" and k: "k \<in> set cs" and dist: "distinct (map cid cs)"
    using Cons.prems by (auto simp: cs_def forest_def)
  have step1: "delete_comment_replies n db (cid k) =
      Some (db\<lparr>comments := filter (\<lambda>c. \<not> reached cs (cid k) c) cs\<rparr>)"
    unfolding cs_def using Cons.prems by (intro IH) auto
  have "distinct (map cid (filter (\<lambda>c. \<not> reached cs (cid k) c) cs))"
    using dist by (rule distinct_map_filter)
  then have "remove_first (\<lambda>d. cid d = cid k) (filter (\<lambda>c. \<not> reached cs (cid k) c) cs)
      = filter (\<lambda>d. cid d \<noteq> cid k) (filter (\<lambda>c. \<not> reached cs (cid k) c) cs)"
    by (rule remove_first_by_id)
  also have "\<dots> = filter keep cs"
    unfolding keep_def filter_filter
    using same_id_same_comment[OF dist _ k] by (intro filter_cong) auto
  finally have step2: "delete_comment_replies_loop n db (k # ks) = delete_comment_replies_loop n db2 ks"
    by (simp add: step1 delete_one_def db2_def)
  have cs2: "comments db2 = filter keep cs" by (simp add: db2_def)
  have kept: "keep k'" if "k' \<in> set ks" for k'
    using that Cons.prems(2,5) by (auto simp: keep_def cs_def)
  have same: "reached (filter keep cs) y c \<longleftrightarrow> reached cs y c" if "keep c" for c y
    unfolding keep_def using that reached_after_removal[OF fo k, of c y] by (simp add: keep_def)
  have anti: "reached (filter keep cs) y c \<Longrightarrow> reached cs y c" for c y
    by (erule reached_mono) auto
  have "delete_comment_replies_loop n db2 ks =
      Some (db2\<lparr>comments :=
         filter (\<lambda>c. \<not> (\<exists>k\<in>set ks. c = k \<or> reached (comments db2) (cid k) c)) (comments db2)\<rparr>)"
  proof (rule Cons.IH)
    show "forest (comments db2)" using fo by (simp add: cs2 forest_filter)
    show "distinct ks" using Cons.prems(2) by simp
    show "set ks \<subseteq> set (comments db2)" using Cons.prems(3) kept by (auto simp: cs2 cs_def)
    show "\<forall>k\<in>set ks. length (filter (reached (comments db2) (cid k)) (comments db2)) < n"
    proof
      fix k' assume k': "k' \<in> set ks"
      have "length (filter (reached (filter keep cs) (cid k')) (filter keep cs))
          \<le> length (filter (reached cs (cid k')) cs)"
        unfolding filter_filter by (rule length_filter_mono) (auto dest: anti)
      also have "\<dots> < n" using Cons.prems(4) k' by (simp add: cs_def)
      finally show "length (filter (reached (comments db2) (cid k')) (comments db2)) < n"
        by (simp add: cs2)
    qed
    show "\<forall>k\<in>set ks. \<forall>k'\<in>set ks. \<not> reached (comments db2) (cid k) k'"
    proof (intro ballI notI)
      fix a b assume ab: "a \<in> set ks" "b \<in> set ks" "reached (comments db2) (cid a) b"
      then have "reached cs (cid a) b" using anti by (simp add: cs2)
      with ab Cons.prems(5) show False by (simp add: cs_def)
    qed
  qed
  also have "db2\<lparr>comments :=
         filter (\<lambda>c. \<not> (\<exists>k\<in>set ks. c = k \<or> reached (comments db2) (cid k) c)) (comments db2)\<rparr>
     = db\<lparr>comments :=
         filter (\<lambda>c. \<not> (\<exists>k'\<in>set (k # ks). c = k' \<or> reached cs (cid k') c)) cs\<rparr>"
  proof -
    have "filter (\<lambda>c. \<not> (\<exists>k\<in>set ks. c = k \<or> reached (filter keep cs) (cid k) c)) (filter keep cs)
       = filter (\<lambda>c. \<not> (\<exists>k'\<in>set (k # ks). c = k' \<or> reached cs (cid k') c)) cs"
      unfolding filter_filter
    proof (rule filter_cong[OF refl])
      fix c assume "c \<in> set cs"
      show "(keep c \<and> \<not> (\<exists>k\<in>set ks. c = k \<or> reached (filter keep cs) (cid k) c)) =
            (\<not> (\<exists>k'\<in>set (k # ks). c = k' \<or> reached cs (cid k') c))"
      proof (cases "keep c")
        case True
        then show ?thesis using same[OF True] by (auto simp: keep_def)
      next
        case False
        then show ?thesis by (auto simp: keep_def)
      qed
    qed
    then show ?thesis by (simp add: db2_def)
  qed
  finally show ?case using step2 by (simp add: cs_def)
qed

lemma delete_comment_replies_correct:
  "forest (comments db) \<Longrightarrow>
   length (filter (reached (comments db) x) (comments db)) < n \<Longrightarrow>
   delete_comment_replies n db x =
     Some (db\<lparr>comments := filter (\<lambda>c. \<not> reached (comments db) x c) (comments db)\<rparr>)"
proof (induction n arbitrary: db x)
  case 0
  then show ?case by simp
next
  case (Suc n)
  define cs where "cs = comments db"
  define ks where "ks = filter (\<lambda>c. parent_id c = Some x) cs"
  have fo: "forest cs" using Suc.prems by (simp add: cs_def)
  then have dist: "distinct cs" by (auto simp: forest_def distinct_map)
  have "delete_comment_replies_loop n db ks =
       Some (db\<lparr>comments :=
         filter (\<lambda>c. \<not> (\<exists>k\<in>set ks. c = k \<or> reached (comments db) (cid k) c)) (comments db)\<rparr>)"
  proof (rule delete_loop_correct)
    fix db' :: database and y
    assume "forest (comments db')" "length (filter (reached (comments db') y) (comments db')) < n"
    then show "delete_comment_replies n db' y =
        Some (db'\<lparr>comments := filter (\<lambda>c. \<not> reached (comments db') y c) (comments db')\<rparr>)"
      by (rule Suc.IH)
  next
    show "forest (comments db)" by fact
    show "distinct ks" using dist by (simp add: ks_def)
    show "set ks \<subseteq> set (comments db)" by (auto simp: ks_def cs_def)
    show "\<forall>k\<in>set ks. length (filter (reached (comments db) (cid k)) (comments db)) < n"
    proof
      fix k assume "k \<in> set ks"
      then have "k \<in> set cs" "parent_id k = Some x" by (auto simp: ks_def)
      from child_fewer_reached[OF fo this] Suc.prems(2)
      show "length (filter (reached (comments db) (cid k)) (comments db)) < n"
        by (simp add: cs_def)
    qed
    show "\<forall>k\<in>set ks. \<forall>k'\<in>set ks. \<not> reached (comments db) (cid k) k'"
      using siblings_independent[OF fo] by (auto simp: ks_def cs_def)
  qed
  moreover have "filter (\<lambda>c. \<not> (\<exists>k\<in>set ks. c = k \<or> reached cs (cid k) c)) cs
      = filter (\<lambda>c. \<not> reached cs x c) cs"
  proof (rule filter_cong[OF refl])
    fix c assume "c \<in> set cs"
    then show "(\<not> (\<exists>k\<in>set ks. c = k \<or> reached cs (cid k) c)) = (\<not> reached cs x c)"
      by (subst (2) reached_via_child) (auto simp: ks_def)
  qed
  ultimately show ?case by (simp add: ks_def cs_def)
qed

lemma find_by_id:
  "distinct (map cid cs) \<Longrightarrow> c \<in> set cs \<Longrightarrow> find (\<lambda>d. cid d = cid c) cs = Some c"
proof (induction cs)
  case Nil
  then show ?case by simp
next
  case (Cons a cs)
  then show ?case by (cases "c = a") (auto simp: image_iff)
qed

lemma find_absent: "i \<notin> cid ` set cs \<Longrightarrow> find (\<lambda>d. cid d = i) cs = None"
  by (induction cs) auto

lemma reached_card:
  assumes "distinct cs"
  shows "card {e. reached cs x e} = length (filter (reached cs x) cs)"
proof -
  have "{e. reached cs x e} = set (filter (reached cs x) cs)"
    by (auto dest: reached_stored)
  moreover have "card (set (filter (reached cs x) cs)) = length (filter (reached cs x) cs)"
    using assms by (intro distinct_card) simp
  ultimately show ?thesis by (simp only:)
qed

lemma length_without:
  "distinct cs \<Longrightarrow> c \<in> set cs \<Longrightarrow> \<not> P c \<Longrightarrow>
   length (filter (\<lambda>e. e \<noteq> c \<and> \<not> P e) cs) + (length (filter P cs) + 1) = length cs"
proof (induction cs)
  case Nil
  then show ?case by simp
next
  case (Cons a cs)
  show ?case
  proof (cases "a = c")
    case True
    with Cons.prems have "c \<notin> set cs" by simp
    then have "filter (\<lambda>e. e \<noteq> c \<and> \<not> P e) cs = filter (\<lambda>e. \<not> P e) cs"
      by (intro filter_cong) auto
    moreover have "length (filter P cs) + length (filter (\<lambda>e. \<not> P e) cs) = length cs"
      by (rule sum_length_filter_compl)
    ultimately show ?thesis using True Cons.prems(3) by simp
  next
    case False
    with Cons show ?thesis by auto
  qed
qed

lemma length_removed:
  assumes "forest cs" "c \<in> set cs"
  shows "length (filter (\<lambda>e. e \<noteq> c \<and> \<not> reached cs (cid c) e) cs)
           + (card {e. reached cs (cid c) e} + 1) = length cs"
proof -
  have dist: "distinct cs" using assms(1) by (auto simp: forest_def distinct_map)
  have irr: "\<not> reached cs (cid c) c" using assms(1) by (rule reached_irrefl)
  show ?thesis
    using length_without[of cs c "reached cs (cid c)", OF dist assms(2) irr] reached_card[OF dist, of "cid c"] by simp
qed

lemma delete_comment_found:
  assumes fo: "forest (comments db)" and c: "c \<in> set (comments db)"
    and oid: "oid (cid c) = Some (cid c)"
    and perm: "is_admin \<or> \<not> truthy author \<or> author_id c = the author"
    and fuel: "length (comments db) \<le> n"
  shows "delete_comment_body oid n db (cid c) author is_admin =
      Some (db\<lparr>comments :=
              filter (\<lambda>e. e \<noteq> c \<and> \<not> reached (comments db) (cid c) e) (comments db)\<rparr>,
            Inr True)"
proof -
  define cs where "cs = comments db"
  have dist: "distinct (map cid cs)" using fo by (simp add: forest_def cs_def)
  have irr: "\<not> reached cs (cid c) c" using fo unfolding cs_def by (rule reached_irrefl)
  have "length (filter (reached cs (cid c)) cs) < length cs"
    using c irr by (intro length_filter_less[of c]) (auto simp: cs_def)
  then have "length (filter (reached (comments db) (cid c)) (comments db)) < n"
    using fuel by (simp add: cs_def)
  with fo have r: "delete_comment_replies n db (cid c) =
      Some (db\<lparr>comments := filter (\<lambda>e. \<not> reached cs (cid c) e) cs\<rparr>)"
    unfolding cs_def by (rule delete_comment_replies_correct)
  have rem: "remove_first (\<lambda>d. cid d = cid c) (filter (\<lambda>e. \<not> reached cs (cid c) e) cs)
      = filter (\<lambda>e. e \<noteq> c \<and> \<not> reached cs (cid c) e) cs"
  proof -
    have "distinct (map cid (filter (\<lambda>e. \<not> reached cs (cid c) e) cs))"
      using dist by (rule distinct_map_filter)
    then have "remove_first (\<lambda>d. cid d = cid c) (filter (\<lambda>e. \<not> reached cs (cid c) e) cs)
      = filter (\<lambda>d. cid d \<noteq> cid c) (filter (\<lambda>e. \<not> reached cs (cid c) e) cs)"
      by (rule remove_first_by_id)
    also have "\<dots> = filter (\<lambda>e. e \<noteq> c \<and> \<not> reached cs (cid c) e) cs"
      unfolding filter_filter
      using same_id_same_comment[OF dist _ c[folded cs_def]] by (intro filter_cong) auto
    finally show ?thesis .
  qed
  have ex: "list_ex (\<lambda>d. cid d = cid c) (filter (\<lambda>e. \<not> reached cs (cid c) e) cs)"
    using c irr by (auto simp: list_ex_iff cs_def)
  have f: "find (\<lambda>d. cid d = cid c) cs = Some c"
    using dist c[folded cs_def] by (rule find_by_id)
  show ?thesis
    using perm by (simp add: delete_comment_body_def oid f r delete_one_def rem ex cs_def[symmetric])
qed

text \<open>
  In a forest, deleting a stored comment \<open>c\<close>, addressed by its stored id, as a
  caller who passes the permission check returns \<open>True\<close>. The replies are removed
  first: after \<open>delete_comment_replies\<close> the comment \<open>c\<close> is still stored and none
  of the comments reached from it is. Afterwards the store holds exactly the comments
  that are neither \<open>c\<close> nor reached from \<open>c\<close>.
\<close>

lemma delete_comment_removes_reached:
  assumes "forest (comments db)" and "c \<in> set (comments db)"
    and "oid (cid c) = Some (cid c)"
    and "is_admin \<or> \<not> truthy author \<or> author_id c = the author"
    and "length (comments db) \<le> n"
  shows "\<exists>db1 db'.
      delete_comment_replies n db (cid c) = Some db1 \<and>
      c \<in> set (comments db1) \<and>
      (\<forall>e\<in>set (comments db1). \<not> reached (comments db) (cid c) e) \<and>
      delete_comment oid n db (cid c) author is_admin = Some (db', True) \<and>
      set (comments db') = set (comments db) - ({c} \<union> {e. reached (comments db) (cid c) e}) \<and>
      length (comments db') + (card {e. reached (comments db) (cid c) e} + 1)
        = length (comments db) \<and>
      (\<forall>e. \<not> reached (comments db') (cid c) e) \<and>
      users db' = users db \<and> posts db' = posts db"
proof -
  define cs where "cs = comments db"
  define db1 where "db1 = db\<lparr>comments := filter (\<lambda>e. \<not> reached cs (cid c) e) cs\<rparr>"
  define db' where
    "db' = db\<lparr>comments := filter (\<lambda>e. e \<noteq> c \<and> \<not> reached cs (cid c) e) cs\<rparr>"
  have irr: "\<not> reached cs (cid c) c"
    using assms(1) unfolding cs_def by (rule reached_irrefl)
  have "length (filter (reached cs (cid c)) cs) < length cs"
    using assms(2) irr by (intro length_filter_less[of c]) (auto simp: cs_def)
  then have "length (filter (reached (comments db) (cid c)) (comments db)) < n"
    using assms(5) by (simp add: cs_def)
  with assms(1) have 1: "delete_comment_replies n db (cid c) = Some db1"
    unfolding db1_def cs_def by (rule delete_comment_replies_correct)
  have 2: "c \<in> set (comments db1)"
    using assms(2) irr by (simp add: db1_def cs_def)
  have 3: "\<forall>e\<in>set (comments db1). \<not> reached (comments db) (cid c) e"
    by (simp add: db1_def cs_def)
  have 4: "delete_comment oid n db (cid c) author is_admin = Some (db', True)"
    using delete_comment_found[where oid = oid and author = author and is_admin = is_admin, OF assms] by (simp add: delete_comment_def db'_def cs_def)
  have 5: "set (comments db') = set (comments db) - ({c} \<union> {e. reached (comments db) (cid c) e})"
    by (auto simp: db'_def cs_def)
  have 6: "length (comments db') + (card {e. reached (comments db) (cid c) e} + 1)
        = length (comments db)"
    using length_removed[OF assms(1,2)] by (simp add: db'_def cs_def)
  have 7: "\<not> reached (comments db') (cid c) e" for e
  proof
    assume d: "reached (comments db') (cid c) e"
    then have "e \<in> set (comments db')" by (rule reached_stored)
    moreover from d have "reached cs (cid c) e"
      by (rule reached_mono) (auto simp: db'_def)
    ultimately show False by (simp add: db'_def)
  qed
  have 8: "users db' = users db \<and> posts db' = posts db" by (simp add: db'_def)
  from 1 2 3 4 5 6 7 8 show ?thesis by blast
qed

text \<open>
  When, in addition, every stored \<open>parent_id\<close> is in the spelling that \<open>str\<close> gives,
  the comments removed with \<open>c\<close> are its descendants: the store loses \<open>c\<close> and its
  \<open>N\<close> descendants, \<open>N + 1\<close> comments, and no descendant of \<open>c\<close> remains.
\<close>

lemma delete_comment_cascade_canonical:
  assumes "forest (comments db)" and "canonical_parents oid (comments db)"
    and "c \<in> set (comments db)" and "oid (cid c) = Some (cid c)"
    and "is_admin \<or> \<not> truthy author \<or> author_id c = the author"
    and "length (comments db) \<le> n"
  shows "\<exists>db'.
      delete_comment oid n db (cid c) author is_admin = Some (db', True) \<and>
      set (comments db') = set (comments db) - ({c} \<union> {e. descendant oid (comments db) (cid c) e}) \<and>
      length (comments db') + (card {e. descendant oid (comments db) (cid c) e} + 1)
        = length (comments db) \<and>
      (\<forall>e. \<not> descendant oid (comments db') (cid c) e)"
proof -
  from delete_comment_removes_reached[where oid = oid and author = author and is_admin = is_admin,
      OF assms(1,3,4,5,6)]
  obtain db' where d: "delete_comment oid n db (cid c) author is_admin = Some (db', True)"
    "set (comments db') = set (comments db) - ({c} \<union> {e. reached (comments db) (cid c) e})"
    "length (comments db') + (card {e. reached (comments db) (cid c) e} + 1)
        = length (comments db)"
    "\<forall>e. \<not> reached (comments db') (cid c) e"
    by blast
  from d(2) have "set (comments db') \<subseteq> set (comments db)" by auto
  with assms(2) have "canonical_parents oid (comments db')" by (rule canonical_parents_subset)
  with d show ?thesis
    by (simp add: descendant_is_reached[OF assms(2)] descendant_is_reached)
qed

text \<open>
  C1 where an id is spelled in upper case. \<open>create_comment\<close> checks the parent through
  \<open>ObjectId\<close> and stores the \<open>parent_id\<close> as it was sent, so it accepts the reply
  \<open>thread_shout\<close> to the root of the thread, and the root then has two descendants.
  \<open>delete_comment\<close> finds the comment through \<open>ObjectId\<close> too, but
  \<open>delete_comment_replies\<close> and the guard before it compare the stored \<open>parent_id\<close>
  strings with the string they are given. Deleting the root by its stored id returns
  \<open>True\<close> and removes two comments, not three: \<open>thread_shout\<close> remains, with the
  deleted root in its parent chain. Deleting the root of the first store by the
  upper-case spelling of its id returns \<open>True\<close>, through the route as well, and
  removes the root alone: its reply remains.
\<close>

theorem delete_misses_other_spelling:
  "create_comment object_id thread_db shout_request bob_id 30 shout_id
     = Inr (thread_db\<lparr>comments := [thread_root, thread_reply, thread_shout]\<rparr>,
            Some (comment_dict thread_shout (Some bob))) \<and>
   descendant object_id [thread_root, thread_reply, thread_shout] root_id thread_reply \<and>
   descendant object_id [thread_root, thread_reply, thread_shout] root_id thread_shout \<and>
   delete_comment object_id 5 (thread_db\<lparr>comments := [thread_root, thread_reply, thread_shout]\<rparr>)
       root_id None True
     = Some (thread_db\<lparr>comments := [thread_shout]\<rparr>, True) \<and>
   descendant object_id [thread_shout] root_id thread_shout \<and>
   descendant object_id (comments thread_db) root_id thread_reply \<and>
   delete_comment object_id 5 thread_db root_id_upper None True
     = Some (thread_db\<lparr>comments := [thread_reply]\<rparr>, True) \<and>
   delete_comment_route object_id 5 thread_db root_id_upper (as_user carol)
     = Some (thread_db\<lparr>comments := [thread_reply]\<rparr>, Inr ()) \<and>
   descendant object_id [thread_reply] root_id thread_reply"
proof -
  have 1: "create_comment object_id thread_db shout_request bob_id 30 shout_id
     = Inr (thread_db\<lparr>comments := [thread_root, thread_reply, thread_shout]\<rparr>,
            Some (comment_dict thread_shout (Some bob)))"
    by (simp add: create_comment_def Let_def truthy_def get_comment_by_id_def
        get_comment_by_id_body_def comment_dict_def author_fields_def thread_defs sample_defs)
  have 2: "delete_comment object_id 5
       (thread_db\<lparr>comments := [thread_root, thread_reply, thread_shout]\<rparr>) root_id None True
     = Some (thread_db\<lparr>comments := [thread_shout]\<rparr>, True)"
    by (simp add: delete_comment_def delete_comment_body_def delete_one_def truthy_def
        numeral_nat thread_defs sample_defs)
  have 3: "delete_comment object_id 5 thread_db root_id_upper None True
     = Some (thread_db\<lparr>comments := [thread_reply]\<rparr>, True)"
    by (simp add: delete_comment_def delete_comment_body_def delete_one_def truthy_def
        numeral_nat thread_defs sample_defs)
  have 4: "delete_comment_route object_id 5 thread_db root_id_upper (as_user carol)
     = Some (thread_db\<lparr>comments := [thread_reply]\<rparr>, Inr ())"
    by (simp add: delete_comment_route_def get_comment_by_id_def get_comment_by_id_body_def
        comment_dict_def author_fields_def delete_comment_def delete_comment_body_def
        delete_one_def truthy_def numeral_nat thread_defs sample_defs)
  show ?thesis
    using 1 2 3 4 by (simp add: shout_is_descendant reply_is_descendant thread_db_def)
qed

section \<open>Deleting twice, and deleting without permission\<close>

lemma delete_comment_absent:
  "oid i = Some k \<Longrightarrow> k \<notin> cid ` set (comments db) \<Longrightarrow>
   delete_comment oid m db i author is_admin = Some (db, False)"
  by (simp add: delete_comment_def delete_comment_body_def find_absent)

lemma get_comment_by_id_absent:
  "oid i = Some k \<Longrightarrow> k \<notin> cid ` set (comments db) \<Longrightarrow> get_comment_by_id oid db i = None"
  by (simp add: get_comment_by_id_def get_comment_by_id_body_def find_absent)

lemmas eval_defs =
  delete_comment_route_def get_comment_by_id_def get_comment_by_id_body_def
  delete_comment_def delete_comment_body_def hex_oid_def is_hex_def delete_one_def
  truthy_def comment_dict_def author_fields_def numeral_nat

text \<open>
  C2, as the code has it. The first delete of a stored comment by a permitted caller
  returns \<open>True\<close>. A second delete of the same id finds no such comment: it leaves the
  database as it is and returns \<open>False\<close>, and the route, which looks the comment up
  first, answers 404.
\<close>

theorem delete_comment_twice:
  assumes "forest (comments db)" and "c \<in> set (comments db)"
    and "oid (cid c) = Some (cid c)"
    and "is_admin \<or> \<not> truthy author \<or> author_id c = the author"
    and "length (comments db) \<le> n"
  shows "\<exists>db'.
      delete_comment oid n db (cid c) author is_admin = Some (db', True) \<and>
      delete_comment oid n db' (cid c) author is_admin = Some (db', False) \<and>
      delete_comment_route oid n db' (cid c) cu =
        Some (db', Inl (HTTPException 404 (''Comment with ID '' @ cid c @ '' not found'')))"
proof -
  define db' where "db' = db\<lparr>comments :=
     filter (\<lambda>e. e \<noteq> c \<and> \<not> reached (comments db) (cid c) e) (comments db)\<rparr>"
  have dist: "distinct (map cid (comments db))" using assms(1) by (simp add: forest_def)
  have 1: "delete_comment oid n db (cid c) author is_admin = Some (db', True)"
    using delete_comment_found[where oid = oid and author = author and is_admin = is_admin,
        OF assms]
    by (simp add: delete_comment_def db'_def)
  have gone: "cid c \<notin> cid ` set (comments db')"
  proof
    assume "cid c \<in> cid ` set (comments db')"
    then obtain e where e: "e \<in> set (comments db)" "e \<noteq> c" "cid e = cid c"
      by (auto simp: db'_def)
    with same_id_same_comment[OF dist e(1) assms(2)] show False by simp
  qed
  have 2: "delete_comment oid n db' (cid c) author is_admin = Some (db', False)"
    using delete_comment_absent[where oid = oid, OF assms(3) gone] .
  have 3: "delete_comment_route oid n db' (cid c) cu =
        Some (db', Inl (HTTPException 404 (''Comment with ID '' @ cid c @ '' not found'')))"
    using get_comment_by_id_absent[where oid = oid, OF assms(3) gone]
    by (simp add: delete_comment_route_def)
  from 1 2 3 show ?thesis by blast
qed

theorem delete_comment_twice_witness:
  "forest (comments sample_db) \<and> comment_2 \<in> set (comments sample_db) \<and>
   hex_oid (cid comment_2) = Some (cid comment_2) \<and>
   author_id comment_2 = the (Some bob_id) \<and>
   length (comments sample_db) \<le> 4 \<and>
   (\<exists>db'.
      delete_comment hex_oid 4 sample_db (cid comment_2) (Some bob_id) False = Some (db', True) \<and>
      delete_comment hex_oid 4 db' (cid comment_2) (Some bob_id) False = Some (db', False) \<and>
      delete_comment_route hex_oid 4 db' (cid comment_2) (as_user bob) =
        Some (db', Inl (HTTPException 404
                 (''Comment with ID '' @ cid comment_2 @ '' not found''))))"
proof -
  have a: "forest (comments sample_db)" by (simp add: forest_def sample_defs)
  have b: "comment_2 \<in> set (comments sample_db)" by (simp add: sample_db_def)
  have c: "hex_oid (cid comment_2) = Some (cid comment_2)"
    by (simp add: hex_oid_def is_hex_def comment_2_def comment_2_id_def)
  have d: "author_id comment_2 = the (Some bob_id)" by (simp add: comment_2_def)
  then have d': "False \<or> \<not> truthy (Some bob_id) \<or> author_id comment_2 = the (Some bob_id)"
    by simp
  have e: "length (comments sample_db) \<le> 4" by (simp add: sample_db_def)
  from delete_comment_twice[where oid = hex_oid and author = "Some bob_id" and is_admin = False
      and cu = "as_user bob", OF a b c d' e] a b c d e
  show ?thesis by blast
qed

text \<open>
  C2, as it is stated, fails on the sample database: the admin deletes the first
  comment, which succeeds and removes its two descendants, and deletes it again, which
  returns \<open>False\<close>; through the route the second request is answered 404.
\<close>

theorem delete_comment_twice_counterexample:
  "delete_comment hex_oid 4 sample_db comment_1_id None True
     = Some (sample_db\<lparr>comments := [comment_4]\<rparr>, True) \<and>
   delete_comment hex_oid 4 (sample_db\<lparr>comments := [comment_4]\<rparr>) comment_1_id None True
     = Some (sample_db\<lparr>comments := [comment_4]\<rparr>, False) \<and>
   delete_comment_route hex_oid 4 sample_db comment_1_id (as_user carol)
     = Some (sample_db\<lparr>comments := [comment_4]\<rparr>, Inr ()) \<and>
   delete_comment_route hex_oid 4 (sample_db\<lparr>comments := [comment_4]\<rparr>) comment_1_id
       (as_user carol)
     = Some (sample_db\<lparr>comments := [comment_4]\<rparr>,
             Inl (HTTPException 404 ''Comment with ID 100000000000000000000001 not found''))"
  by (simp add: eval_defs sample_defs)

text \<open>
  C3 at a caller who is neither the author nor an admin: Bob asks to delete Alice's
  comment. The body of \<open>delete_comment\<close> raises the 403 exception, its own handler
  turns it into \<open>False\<close>, and the route answers 500. The database is unchanged.
\<close>

theorem delete_comment_route_forbidden_is_500:
  "delete_comment_body hex_oid 4 sample_db comment_1_id (Some bob_id) False
     = Some (sample_db,
             Inl (HTTPException 403 ''You do not have permission to delete this comment'')) \<and>
   delete_comment hex_oid 4 sample_db comment_1_id (Some bob_id) False
     = Some (sample_db, False) \<and>
   delete_comment_route hex_oid 4 sample_db comment_1_id (as_user bob)
     = Some (sample_db, Inl (HTTPException 500 ''Failed to delete comment''))"
  by (simp add: eval_defs sample_defs)

section \<open>Reads by id\<close>

text \<open>
  C10. \<open>get_comment_by_id\<close> and \<open>get_post_by_id\<close> return \<open>None\<close> for an id that
  \<open>ObjectId\<close> rejects, and whenever the body of their \<open>try\<close> block raises, which
  it also does when the stored author id of the document found is rejected.
\<close>

theorem get_by_id_not_found:
  "(oid i = None \<longrightarrow> get_comment_by_id oid db i = None \<and> get_post_by_id oid db i = None) \<and>
   (get_comment_by_id_body oid db i = Inl e \<longrightarrow> get_comment_by_id oid db i = None) \<and>
   (get_post_by_id_body oid db i = Inl e' \<longrightarrow> get_post_by_id oid db i = None) \<and>
   (\<forall>c. find (\<lambda>c. cid c = the (oid i)) (comments db) = Some c \<and> author_id c \<noteq> [] \<and>
        oid (author_id c) = None \<longrightarrow> get_comment_by_id oid db i = None) \<and>
   (\<forall>p. find (\<lambda>p. pid p = the (oid i)) (posts db) = Some p \<and> p_author_id p \<noteq> [] \<and>
        oid (p_author_id p) = None \<longrightarrow> get_post_by_id oid db i = None)"
  by (auto simp: get_comment_by_id_def get_comment_by_id_body_def get_post_by_id_def
      get_post_by_id_body_def split: option.splits)

theorem get_by_id_not_found_witness:
  "hex_oid ''no-such-id'' = None \<and>
   get_comment_by_id_body hex_oid sample_db ''no-such-id'' = Inl InvalidId \<and>
   get_post_by_id_body hex_oid sample_db ''no-such-id'' = Inl InvalidId \<and>
   get_comment_by_id hex_oid sample_db ''no-such-id'' = None \<and>
   get_post_by_id hex_oid sample_db ''no-such-id'' = None"
proof -
  have a: "hex_oid ''no-such-id'' = None" by (simp add: hex_oid_def)
  have b: "get_comment_by_id_body hex_oid sample_db ''no-such-id'' = Inl InvalidId"
    by (simp add: get_comment_by_id_body_def a)
  have c: "get_post_by_id_body hex_oid sample_db ''no-such-id'' = Inl InvalidId"
    by (simp add: get_post_by_id_body_def a)
  from get_by_id_not_found[of hex_oid "''no-such-id''" sample_db InvalidId InvalidId] a b c
  show ?thesis by blast
qed

section \<open>Pagination\<close>

lemma length_comments_loop:
  "get_comments_by_post_loop oid n db incl cs = Some its \<Longrightarrow> length its \<le> length cs"
proof (induction cs arbitrary: its)
  case Nil
  then show ?case by simp
next
  case (Cons c cs)
  then show ?case
    by (auto split: option.splits if_splits)
qed

lemma length_user_comments_loop:
  "get_user_comments_loop oid db cs = Inr its \<Longrightarrow> length its \<le> length cs"
proof (induction cs arbitrary: its)
  case Nil
  then show ?case by simp
next
  case (Cons c cs)
  then show ?case
    by (auto split: option.splits if_splits simp: map_sum_def split: sum.splits)
qed

lemma length_skip_limit:
  "skip_limit off lim xs = Inr ys \<Longrightarrow> 1 \<le> lim \<Longrightarrow> int (length ys) \<le> lim"
  by (auto simp: skip_limit_def split: if_splits)


lemma length_map_filter: "length (List.map_filter f xs) \<le> length xs"
  by (induction xs) (auto simp: List.map_filter_simps split: option.splits)

lemmas listing_defs =
  get_posts_def get_comments_by_post_def get_user_comments_def skip_limit_def posts_query_def
  get_post_by_id_def get_post_by_id_body_def post_dict_def List.map_filter_simps

text \<open>
  C9, as the code has it. When a listing is called without a limit, the limit is 10
  for \<open>get_posts\<close>, 50 for \<open>get_comments_by_post\<close> and 20 for
  \<open>get_user_comments\<close>, and without an offset the offset is 0; such a listing has at
  most 10, 50 and 20 items. Nothing clamps: \<open>pagination_params\<close> returns the limit
  and the offset it is given, and the listings hand theirs to the cursor as they are.
  A limit of at least 1 bounds the number of items.
\<close>

theorem listing_defaults:
  "pg_limit (pagination_params l k) = l \<and> pg_offset (pagination_params l k) = k \<and>
   get_posts oid db None a f = get_posts oid db (Some 10) a f \<and>
   get_comments_by_post oid n db pst None a b = get_comments_by_post oid n db pst (Some 50) a b \<and>
   get_user_comments oid db u None a = get_user_comments oid db u (Some 20) a \<and>
   get_posts oid db la None f = get_posts oid db la (Some 0) f \<and>
   get_comments_by_post oid n db pst la None b = get_comments_by_post oid n db pst la (Some 0) b \<and>
   get_user_comments oid db u la None = get_user_comments oid db u la (Some 0) \<and>
   (get_posts oid db None a f = Inr ps \<longrightarrow> length ps \<le> 10) \<and>
   (get_comments_by_post oid n db pst None a b = Some (Inr its) \<longrightarrow> length its \<le> 50) \<and>
   (get_user_comments oid db u None a = Inr ucs \<longrightarrow> length ucs \<le> 20) \<and>
   (1 \<le> lim \<longrightarrow>
      (get_posts oid db (Some lim) a f = Inr ps' \<longrightarrow> int (length ps') \<le> lim) \<and>
      (get_comments_by_post oid n db pst (Some lim) a b = Some (Inr its') \<longrightarrow>
         int (length its') \<le> lim) \<and>
      (get_user_comments oid db u (Some lim) a = Inr ucs' \<longrightarrow> int (length ucs') \<le> lim))"
proof -
  have P: "int (length ps) \<le> lim" if "1 \<le> lim" "get_posts oid db (Some lim) a f = Inr ps"
    for lim ps
  proof -
    from that(2) obtain cur where
      c: "skip_limit (case a of None \<Rightarrow> 0 | Some k \<Rightarrow> k) lim
         (sort_key (\<lambda>p. - p_created_at p) (filter (posts_query f) (posts db))) = Inr cur"
      and ps: "ps = List.map_filter (\<lambda>p. get_post_by_id oid db (pid p)) cur"
      by (auto simp: get_posts_def map_sum_def Let_def split: sum.splits)
    from c that(1) have "int (length cur) \<le> lim" by (rule length_skip_limit)
    moreover have "length ps \<le> length cur" unfolding ps by (rule length_map_filter)
    ultimately show ?thesis by simp
  qed
  have C: "int (length its) \<le> lim"
    if "1 \<le> lim" "get_comments_by_post oid n db pst (Some lim) a b = Some (Inr its)"
    for lim its
  proof -
    from that(2) obtain cur where
      c: "skip_limit (case a of None \<Rightarrow> 0 | Some k \<Rightarrow> k) lim
         (sort_key (\<lambda>c. - created_at c)
            (filter (\<lambda>c. post_id c = pst \<and>
                 ((case b of None \<Rightarrow> False | Some i \<Rightarrow> i) \<or> parent_id c = None))
               (comments db))) = Inr cur"
      and its: "get_comments_by_post_loop oid n db (case b of None \<Rightarrow> False | Some i \<Rightarrow> i) cur
                  = Some its"
      by (auto simp: get_comments_by_post_def Let_def split: sum.splits)
    from c that(1) have "int (length cur) \<le> lim" by (rule length_skip_limit)
    moreover have "length its \<le> length cur" using its by (rule length_comments_loop)
    ultimately show ?thesis by simp
  qed
  have U: "int (length ucs) \<le> lim"
    if "1 \<le> lim" "get_user_comments oid db u (Some lim) a = Inr ucs" for lim ucs
  proof -
    from that(2) obtain cur where
      c: "skip_limit (case a of None \<Rightarrow> 0 | Some k \<Rightarrow> k) lim
         (sort_key (\<lambda>c. - created_at c) (filter (\<lambda>c. author_id c = u) (comments db))) = Inr cur"
      and ucs: "get_user_comments_loop oid db cur = Inr ucs"
      by (auto simp: get_user_comments_def Let_def split: sum.splits)
    from c that(1) have "int (length cur) \<le> lim" by (rule length_skip_limit)
    moreover have "length ucs \<le> length cur" using ucs by (rule length_user_comments_loop)
    ultimately show ?thesis by simp
  qed
  have 1: "pg_limit (pagination_params l k) = l \<and> pg_offset (pagination_params l k) = k"
    by (simp add: pagination_params_def)
  have 2: "get_posts oid db None a f = get_posts oid db (Some 10) a f"
    "get_comments_by_post oid n db pst None a b = get_comments_by_post oid n db pst (Some 50) a b"
    "get_user_comments oid db u None a = get_user_comments oid db u (Some 20) a"
    by (simp_all add: get_posts_def get_comments_by_post_def get_user_comments_def)
  have 3: "get_posts oid db la None f = get_posts oid db la (Some 0) f"
    "get_comments_by_post oid n db pst la None b = get_comments_by_post oid n db pst la (Some 0) b"
    "get_user_comments oid db u la None = get_user_comments oid db u la (Some 0)"
    by (simp_all add: get_posts_def get_comments_by_post_def get_user_comments_def)
  have 4: "length ps \<le> 10" if "get_posts oid db None a f = Inr ps"
    using P[of 10 ps] that 2(1) by simp
  have 5: "length its \<le> 50" if "get_comments_by_post oid n db pst None a b = Some (Inr its)"
    using C[of 50 its] that 2(2) by simp
  have 6: "length ucs \<le> 20" if "get_user_comments oid db u None a = Inr ucs"
    using U[of 20 ucs] that 2(3) by simp
  from 1 2 3 4 5 6 P C U show ?thesis by blast
qed

theorem listing_defaults_witness:
  "\<exists>ps its ucs.
     get_posts hex_oid sample_db None None None = Inr ps \<and>
     get_comments_by_post hex_oid 5 sample_db post_1_id None None None = Some (Inr its) \<and>
     get_user_comments hex_oid sample_db alice_id None None = Inr ucs \<and>
     length ps \<le> 10 \<and> length its \<le> 50 \<and> length ucs \<le> 20 \<and>
     get_posts hex_oid sample_db None None None = get_posts hex_oid sample_db (Some 10) None None \<and>
     get_comments_by_post hex_oid 5 sample_db post_1_id None None None
       = get_comments_by_post hex_oid 5 sample_db post_1_id (Some 50) None None \<and>
     get_user_comments hex_oid sample_db alice_id None None
       = get_user_comments hex_oid sample_db alice_id (Some 20) None \<and>
     (1::int) \<le> 10 \<and>
     get_posts hex_oid sample_db (Some 10) None None = Inr ps \<and> int (length ps) \<le> 10"
proof -
  obtain ps where 1: "get_posts hex_oid sample_db None None None = Inr ps"
    by (simp add: listing_defs eval_defs sample_defs)
  obtain its where 2:
    "get_comments_by_post hex_oid 5 sample_db post_1_id None None None = Some (Inr its)"
    by (simp add: listing_defs eval_defs sample_defs)
  obtain ucs where 3: "get_user_comments hex_oid sample_db alice_id None None = Inr ucs"
    by (simp add: listing_defs eval_defs sample_defs)
  have 4: "(1::int) \<le> 10" by simp
  note T = listing_defaults[where oid = hex_oid and db = sample_db and n = 5
      and pst = post_1_id and u = alice_id and a = None and b = None and f = None
      and la = None and l = 10 and k = 0 and lim = 10 and ps = ps and its = its and ucs = ucs
      and ps' = ps and its' = its and ucs' = ucs]
  from T have A1:
    "get_posts hex_oid sample_db None None None = get_posts hex_oid sample_db (Some 10) None None"
    by blast
  from T have A2: "get_comments_by_post hex_oid 5 sample_db post_1_id None None None
       = get_comments_by_post hex_oid 5 sample_db post_1_id (Some 50) None None"
    by blast
  from T have A3: "get_user_comments hex_oid sample_db alice_id None None
       = get_user_comments hex_oid sample_db alice_id (Some 20) None"
    by blast
  from T 1 have L1: "length ps \<le> 10" by blast
  from T 2 have L2: "length its \<le> 50" by blast
  from T 3 have L3: "length ucs \<le> 20" by blast
  from 1 A1 have 5: "get_posts hex_oid sample_db (Some 10) None None = Inr ps" by simp
  from T 4 5 have L5: "int (length ps) \<le> 10" by blast
  show ?thesis
    by (rule exI[of _ ps], rule exI[of _ its], rule exI[of _ ucs]) (intro conjI; fact)
qed

text \<open>
  C9, as it is stated, fails where it bounds the limit and the offset:
  \<open>pagination_params\<close> returns a limit of 1000 and an offset of -5 as they are; the
  comments of a post listed with the limit 0 are all four comments of the sample
  database, a limit of 0 being no limit for the cursor; and an offset of -1 is not
  raised to 0, the cursor refuses it.
\<close>

theorem listing_bounds_counterexample:
  "pagination_params 1000 (- 5) = \<lparr>pg_limit = 1000, pg_offset = - 5\<rparr> \<and>
   map_option (map_sum id length)
     (get_comments_by_post hex_oid 5 sample_db post_1_id (Some 0) (Some 0) (Some True))
     = Some (Inr 4) \<and>
   get_comments_by_post hex_oid 5 sample_db post_1_id (Some 10) (Some (- 1)) (Some True)
     = Some (Inl ValueError)"
  by (simp add: pagination_params_def listing_defs eval_defs sample_defs)

section \<open>Slugs\<close>

text \<open>
  C7 at an explicit slug that ends with a newline: \<open>is_valid_slug\<close> accepts it,
  because \<open>$\<close> also matches before a final newline, although it is not of the form
  \<open>^[a-z0-9]+(-[a-z0-9]+)*$\<close>; \<open>create_post\<close> and \<open>update_post\<close> store it.
\<close>

theorem newline_slug_is_stored:
  "is_valid_slug (''a'' @ [CHR 0x0A]) \<and> \<not> slug_pattern (''a'' @ [CHR 0x0A]) \<and>
   map_sum id (\<lambda>(db', r). map slug (posts db'))
     (create_post hex_oid (\<lambda>t. ''unused'') sample_db
        \<lparr>pc_title = ''T'', pc_content = ''hi'', pc_summary = None, pc_tags = [],
         pc_slug = Some (''a'' @ [CHR 0x0A]), pc_status = ''draft''\<rparr>
        alice_id 5 ''000000000000000000000002'')
     = Inr [''hello-world'', ''a'' @ [CHR 0x0A]] \<and>
   map_sum id (\<lambda>(db', r). map slug (posts db'))
     (update_post hex_oid (\<lambda>t. ''unused'') sample_db post_1_id
        \<lparr>pu_title = None, pu_content = None, pu_summary = None, pu_tags = None,
         pu_slug = Some (''b'' @ [CHR 0x0A]), pu_status = None\<rparr> (Some alice_id) 7)
     = Inr [''b'' @ [CHR 0x0A]]"
  by (simp add: is_valid_slug_def slug_pattern_def is_lower_alnum_def create_post_def
      update_post_def truthy_def hex_oid_def is_hex_def sample_defs Let_def)

section \<open>Updating a comment\<close>

lemma get_comment_by_id_stored:
  assumes "distinct (map cid (comments db))" "c \<in> set (comments db)"
    and "oid (cid c) = Some (cid c)" "oid (author_id c) \<noteq> None"
  shows "get_comment_by_id oid db (cid c) = Some (comment_dict c (author_doc oid db c))"
  using assms find_by_id[OF assms(1,2)]
  by (auto simp: get_comment_by_id_def get_comment_by_id_body_def author_doc_def)

lemma readableD:
  "readable oid cs \<Longrightarrow> c \<in> set cs \<Longrightarrow> oid (cid c) = Some (cid c) \<and> oid (author_id c) \<noteq> None"
  by (simp add: readable_def list_all_iff)

lemma update_one_by_id:
  "distinct (map cid cs) \<Longrightarrow> c \<in> set cs \<Longrightarrow>
   update_one (\<lambda>e. cid e = cid c) f cs = map (\<lambda>e. if e = c then f e else e) cs"
proof (induction cs)
  case Nil
  then show ?case by simp
next
  case (Cons a cs)
  show ?case
  proof (cases "a = c")
    case True
    with Cons.prems have "c \<notin> set cs" by (auto simp: image_iff)
    then have "map (\<lambda>e. if e = c then f e else e) cs = cs"
      by (induction cs) auto
    with True show ?thesis by simp
  next
    case False
    with Cons.prems have "c \<in> set cs" "cid a \<noteq> cid c" by (auto simp: image_iff)
    with Cons False show ?thesis by simp
  qed
qed

lemma find_user:
  "\<exists>u\<in>set us. uid u = i \<Longrightarrow> \<exists>u. find (\<lambda>u. uid u = i) us = Some u \<and> uid u = i"
  by (induction us) auto

text \<open>
  C6, as the code has it. For a stored comment and an authenticated caller, the update
  succeeds exactly when the caller is the author of the comment: then the content and
  \<open>updated_at\<close> of that comment are rewritten, nothing else changes, and the updated
  comment is returned. Every other caller, an admin included, gets 403: the route lets
  an admin pass, and \<open>update_comment\<close> then refuses whoever is not the author. An error
  result carries no database, the stored comments being left as they were.
\<close>

theorem update_comment_route_author_only:
  assumes "distinct (map cid (comments db))" and "readable oid (comments db)"
    and "c \<in> set (comments db)"
    and "\<exists>u\<in>set (users db). uid u = cu_id cu"
    and "oid (cu_id cu) = Some (cu_id cu)" and "cu_id cu \<noteq> []"
  shows "update_comment_route oid db (cid c) data cu now =
      (if author_id c = cu_id cu then
         Inr (db\<lparr>comments :=
                  map (\<lambda>e. if e = c then e\<lparr>content := cu_content data, updated_at := now\<rparr> else e)
                    (comments db)\<rparr>,
              Some (comment_dict (c\<lparr>content := cu_content data, updated_at := now\<rparr>)
                      (author_doc oid db c)))
       else Inl (HTTPException 403 ''You do not have permission to update this comment''))"
proof -
  define c' where "c' = c\<lparr>content := cu_content data, updated_at := now\<rparr>"
  define db' where "db' = db\<lparr>comments :=
      map (\<lambda>e. if e = c then e\<lparr>content := cu_content data, updated_at := now\<rparr> else e)
        (comments db)\<rparr>"
  note r = readableD[OF assms(2,3)]
  have g: "get_comment_by_id oid db (cid c) = Some (comment_dict c (author_doc oid db c))"
    using assms(1,3) r by (intro get_comment_by_id_stored) auto
  have f: "find (\<lambda>e. cid e = cid c) (comments db) = Some c"
    using assms(1,3) by (rule find_by_id)
  have u: "update_comment oid db (cid c) data (cu_id cu) now =
      (if author_id c \<noteq> cu_id cu then
         Inl (HTTPException 403 ''You do not have permission to update this comment'')
       else Inr (db', get_comment_by_id oid db' (cid c)))"
    using r f update_one_by_id[OF assms(1,3)]
    by (simp add: update_comment_def db'_def Let_def)
  show ?thesis
  proof (cases "author_id c = cu_id cu")
    case True
    from find_user[OF assms(4)] obtain u where
      fu: "find (\<lambda>u. uid u = cu_id cu) (users db) = Some u" "uid u = cu_id cu" by blast
    have ad: "author_doc oid db c = Some u"
      using True assms(5,6) fu by (simp add: author_doc_def)
    have pass: "map_option a_id (f_author (comment_dict c (author_doc oid db c))) = Some (cu_id cu)"
      using fu by (simp add: ad comment_dict_def author_fields_def)
    have ids: "map cid (comments db') = map cid (comments db)"
      by (auto simp: db'_def)
    have "get_comment_by_id oid db' (cid c') = Some (comment_dict c' (author_doc oid db' c'))"
    proof (rule get_comment_by_id_stored)
      show "distinct (map cid (comments db'))" using assms(1) by (simp add: ids)
      show "c' \<in> set (comments db')" using assms(3) by (auto simp: db'_def c'_def)
      show "oid (cid c') = Some (cid c')" using r by (simp add: c'_def)
      show "oid (author_id c') \<noteq> None" using r by (simp add: c'_def)
    qed
    moreover have "author_doc oid db' c' = author_doc oid db c"
      by (simp add: author_doc_def db'_def c'_def)
    ultimately have g': "get_comment_by_id oid db' (cid c) = Some (comment_dict c' (author_doc oid db c))"
      by (simp add: c'_def)
    show ?thesis
      using True pass g' unfolding update_comment_route_def g u
      by (simp add: db'_def c'_def)
  next
    case False
    then show ?thesis unfolding update_comment_route_def g u by simp
  qed
qed

theorem update_comment_route_author_only_witness:
  "distinct (map cid (comments sample_db)) \<and> readable hex_oid (comments sample_db) \<and>
   comment_2 \<in> set (comments sample_db) \<and>
   (\<exists>u\<in>set (users sample_db). uid u = cu_id (as_user bob)) \<and>
   hex_oid (cu_id (as_user bob)) = Some (cu_id (as_user bob)) \<and> cu_id (as_user bob) \<noteq> [] \<and>
   author_id comment_2 = cu_id (as_user bob) \<and>
   update_comment_route hex_oid sample_db (cid comment_2) \<lparr>cu_content = ''edited''\<rparr>
      (as_user bob) 99
     = Inr (sample_db\<lparr>comments :=
               [comment_1, comment_2\<lparr>content := ''edited'', updated_at := 99\<rparr>,
                comment_3, comment_4]\<rparr>,
            Some (comment_dict (comment_2\<lparr>content := ''edited'', updated_at := 99\<rparr>)
                    (Some bob)))"
proof -
  have a: "distinct (map cid (comments sample_db))" by (simp add: sample_defs)
  have b: "readable hex_oid (comments sample_db)"
    by (simp add: readable_def hex_oid_def is_hex_def sample_defs)
  have c: "comment_2 \<in> set (comments sample_db)" by (simp add: sample_db_def)
  have d: "\<exists>u\<in>set (users sample_db). uid u = cu_id (as_user bob)"
    by (simp add: sample_defs)
  have e: "hex_oid (cu_id (as_user bob)) = Some (cu_id (as_user bob))"
    by (simp add: hex_oid_def is_hex_def sample_defs)
  have f: "cu_id (as_user bob) \<noteq> []" by (simp add: sample_defs)
  have g: "author_id comment_2 = cu_id (as_user bob)" by (simp add: sample_defs)
  have h: "author_doc hex_oid sample_db comment_2 = Some bob"
    by (simp add: author_doc_def hex_oid_def is_hex_def sample_defs)
  have i: "map (\<lambda>e. if e = comment_2 then e\<lparr>content := ''edited'', updated_at := 99\<rparr> else e)
             (comments sample_db)
           = [comment_1, comment_2\<lparr>content := ''edited'', updated_at := 99\<rparr>,
              comment_3, comment_4]"
    by (simp add: sample_defs)
  from update_comment_route_author_only[where oid = hex_oid and data = "\<lparr>cu_content = ''edited''\<rparr>"
      and now = 99, OF a b c d e f] g h i a b c d e f
  show ?thesis by (simp cong: if_cong)
qed

text \<open>
  C6, as it is stated, fails for an admin who is not the author: Carol, an admin, asks
  to update Bob's comment and gets 403.
\<close>

theorem admin_update_counterexample:
  "cu_role (as_user carol) = ''admin'' \<and> comment_2 \<in> set (comments sample_db) \<and>
   update_comment_route hex_oid sample_db comment_2_id \<lparr>cu_content = ''edited''\<rparr>
      (as_user carol) 99
     = Inl (HTTPException 403 ''You do not have permission to update this comment'')"
  by (simp add: update_comment_route_def update_comment_def eval_defs sample_defs)

section \<open>Summaries\<close>

lemma rstrip_decomp:
  "\<exists>w. x = rstrip x @ w \<and> list_all isspace w"
proof -
  have "rstrip x @ rev (takeWhile isspace (rev x))
      = rev (takeWhile isspace (rev x) @ dropWhile isspace (rev x))"
    by (simp only: rstrip_def rev_append)
  also have "\<dots> = x" by simp
  finally have "x = rstrip x @ rev (takeWhile isspace (rev x))" by (rule sym)
  moreover have "list_all isspace (rev (takeWhile isspace (rev x)))"
    by (auto simp: list_all_iff dest: set_takeWhileD)
  ultimately show ?thesis by blast
qed

lemma rstrip_last: "rstrip x = [] \<or> \<not> isspace (last (rstrip x))"
proof (cases "dropWhile isspace (rev x) = []")
  case True
  then show ?thesis by (simp add: rstrip_def)
next
  case False
  then have "\<not> isspace (hd (dropWhile isspace (rev x)))" by (rule hd_dropWhile)
  with False show ?thesis by (simp add: rstrip_def last_rev)
qed

lemma rfind_decomp:
  assumes "c \<in> set s"
  shows "\<exists>i rest. rfind s c = int i \<and> s = take i s @ [c] @ rest \<and> c \<notin> set rest"
proof -
  define tw where "tw = takeWhile (\<lambda>x. x \<noteq> c) (rev s)"
  define dw where "dw = dropWhile (\<lambda>x. x \<noteq> c) (rev s)"
  have split: "rev s = tw @ dw" by (simp add: tw_def dw_def)
  have ne: "dw \<noteq> []" using assms by (auto simp: dw_def)
  then have "\<not> hd dw \<noteq> c" unfolding dw_def by (rule hd_dropWhile)
  with ne obtain dw' where dw: "dw = c # dw'" by (cases dw) auto
  have "rev (rev s) = rev (tw @ dw)" using split by (rule arg_cong)
  then have s: "s = rev dw' @ [c] @ rev tw" by (simp add: dw)
  have len: "length s = length dw' + 1 + length tw"
    by (subst s) simp
  have "rfind s c = int (length dw')"
    using assms len by (simp add: rfind_def tw_def[symmetric])
  moreover have "take (length dw') s = rev dw'" by (subst s) simp
  moreover have "c \<notin> set (rev tw)" by (auto simp: tw_def dest: set_takeWhileD)
  ultimately show ?thesis using s by (intro exI[of _ "length dw'"] exI[of _ "rev tw"]) simp
qed

lemma summary_short:
  "length cont \<le> n \<Longrightarrow> get_summary_from_content cont n = cont"
  by (simp add: get_summary_from_content_def)

lemma summary_long:
  assumes "n < length cont"
  shows "\<exists>s w rest. get_summary_from_content cont n = s @ ''...'' \<and>
      take n cont = s @ w @ rest \<and> (s = [] \<or> \<not> isspace (last s)) \<and>
      list_all isspace w \<and> CHR '' '' \<notin> set rest \<and>
      (CHR '' '' \<in> set (take n cont) \<longrightarrow> w \<noteq> [] \<and> last w = CHR '' '') \<and>
      (CHR '' '' \<notin> set (take n cont) \<longrightarrow> rest = [])"
proof (cases "CHR '' '' \<in> set (take n cont)")
  case True
  from rfind_decomp[OF True] obtain i rest where
    i: "rfind (take n cont) (CHR '' '') = int i"
    and d: "take n cont = take i (take n cont) @ [CHR '' ''] @ rest"
    and r: "CHR '' '' \<notin> set rest" by blast
  define s1 where "s1 = take i (take n cont)"
  from rstrip_decomp[of s1] obtain w where w: "s1 = rstrip s1 @ w" "list_all isspace w" by blast
  have g: "get_summary_from_content cont n = rstrip s1 @ ''...''"
    using assms i by (simp add: get_summary_from_content_def Let_def s1_def)
  have "take n cont = rstrip s1 @ (w @ [CHR '' '']) @ rest"
    using d w(1) unfolding s1_def[symmetric] by simp
  moreover have "list_all isspace (w @ [CHR '' ''])"
    using w(2) by (simp add: isspace_def)
  ultimately show ?thesis
    using g r rstrip_last[of s1] True
    by (intro exI[of _ "rstrip s1"] exI[of _ "w @ [CHR '' '']"] exI[of _ rest]) simp
next
  case False
  from rstrip_decomp[of "take n cont"] obtain w where
    w: "take n cont = rstrip (take n cont) @ w" "list_all isspace w" by blast
  have g: "get_summary_from_content cont n = rstrip (take n cont) @ ''...''"
    using assms False by (simp add: get_summary_from_content_def Let_def rfind_def)
  show ?thesis
    using g w rstrip_last[of "take n cont"] False
    by (intro exI[of _ "rstrip (take n cont)"] exI[of _ w] exI[of _ "[]"]) simp
qed

lemmas post_eval_defs =
  create_post_def truthy_def hex_oid_def is_hex_def sample_defs Let_def sample_post_create_def
  post_2_id_def get_summary_from_content_def rfind_def rstrip_def isspace_def

text \<open>
  C8, as the code has it. A post created without a summary (none, or an empty one)
  stores, for a content of at most 200 characters, the content itself, with no
  ellipsis. For a longer content it stores \<open>s @ "..."\<close>, where the first 200
  characters are \<open>s @ w @ rest\<close>: \<open>s\<close> does not end in whitespace, \<open>w\<close> is
  whitespace, and \<open>rest\<close> has no space character; when the first 200 characters
  contain a space, \<open>w\<close> ends at the last of them, and otherwise \<open>rest\<close> is empty, so
  that only trailing whitespace is cut.
\<close>

theorem summary_of_created_post:
  assumes "create_post oid slugify db post_data author now new_id = Inr (db', r)"
    and "\<not> truthy (pc_summary post_data)"
  shows "\<exists>p. posts db' = posts db @ [p] \<and> p_content p = pc_content post_data \<and>
      (length (p_content p) \<le> 200 \<longrightarrow> summary p = p_content p) \<and>
      (200 < length (p_content p) \<longrightarrow>
         (\<exists>s w rest. summary p = s @ ''...'' \<and>
            take 200 (p_content p) = s @ w @ rest \<and> (s = [] \<or> \<not> isspace (last s)) \<and>
            list_all isspace w \<and> CHR '' '' \<notin> set rest \<and>
            (CHR '' '' \<in> set (take 200 (p_content p)) \<longrightarrow> w \<noteq> [] \<and> last w = CHR '' '') \<and>
            (CHR '' '' \<notin> set (take 200 (p_content p)) \<longrightarrow> rest = [])))"
proof -
  from assms obtain p where p: "posts db' = posts db @ [p]"
    "p_content p = pc_content post_data"
    "summary p = get_summary_from_content (pc_content post_data) 200"
    by (auto simp: create_post_def Let_def split: sum.splits if_splits)
  show ?thesis
    using p summary_short[of "pc_content post_data" 200] summary_long[of 200 "pc_content post_data"]
    by (intro exI[of _ p]) simp
qed

theorem summary_of_created_post_witness:
  "\<not> truthy (pc_summary (sample_post_create long_content)) \<and>
   200 < length long_content \<and> CHR '' '' \<in> set (take 200 long_content) \<and>
   length ''hi'' \<le> (200::nat) \<and>
   (\<exists>db' r p s w rest.
      create_post hex_oid (\<lambda>t. ''t'') sample_db (sample_post_create long_content) alice_id 5
        post_2_id = Inr (db', r) \<and>
      posts db' = posts sample_db @ [p] \<and> summary p = s @ ''...'' \<and>
      take 200 long_content = s @ w @ rest \<and> (s = [] \<or> \<not> isspace (last s)) \<and>
      list_all isspace w \<and> CHR '' '' \<notin> set rest \<and> w \<noteq> [] \<and> last w = CHR '' '') \<and>
   (\<exists>db' r p.
      create_post hex_oid (\<lambda>t. ''t'') sample_db (sample_post_create ''hi'') alice_id 5
        post_2_id = Inr (db', r) \<and>
      posts db' = posts sample_db @ [p] \<and> summary p = ''hi'')"
proof -
  have t: "\<not> truthy (pc_summary (sample_post_create c))" for c
    by (simp add: truthy_def sample_post_create_def)
  have c: "pc_content (sample_post_create c) = c" for c
    by (simp add: sample_post_create_def)
  have l: "200 < length long_content" by (simp add: long_content_def)
  have sp: "CHR '' '' \<in> set (take 200 long_content)" by (simp add: long_content_def)
  obtain db1 r1 where 1:
    "create_post hex_oid (\<lambda>t. ''t'') sample_db (sample_post_create long_content) alice_id 5
        post_2_id = Inr (db1, r1)"
    by (simp add: create_post_def truthy_def sample_defs Let_def sample_post_create_def)
  obtain db2 r2 where 2:
    "create_post hex_oid (\<lambda>t. ''t'') sample_db (sample_post_create ''hi'') alice_id 5
        post_2_id = Inr (db2, r2)"
    by (simp add: create_post_def truthy_def sample_defs Let_def sample_post_create_def)
  have A:
    "\<exists>db' r p s w rest.
      create_post hex_oid (\<lambda>t. ''t'') sample_db (sample_post_create long_content) alice_id 5
        post_2_id = Inr (db', r) \<and>
      posts db' = posts sample_db @ [p] \<and> summary p = s @ ''...'' \<and>
      take 200 long_content = s @ w @ rest \<and> (s = [] \<or> \<not> isspace (last s)) \<and>
      list_all isspace w \<and> CHR '' '' \<notin> set rest \<and> w \<noteq> [] \<and> last w = CHR '' ''"
  proof -
    from summary_of_created_post[OF 1 t, unfolded c] obtain p where
      p1: "posts db1 = posts sample_db @ [p]" and p2: "p_content p = long_content" and
      p3: "200 < length (p_content p) \<longrightarrow>
         (\<exists>s w rest. summary p = s @ ''...'' \<and>
            take 200 (p_content p) = s @ w @ rest \<and> (s = [] \<or> \<not> isspace (last s)) \<and>
            list_all isspace w \<and> CHR '' '' \<notin> set rest \<and>
            (CHR '' '' \<in> set (take 200 (p_content p)) \<longrightarrow> w \<noteq> [] \<and> last w = CHR '' '') \<and>
            (CHR '' '' \<notin> set (take 200 (p_content p)) \<longrightarrow> rest = []))"
      by blast
    have l': "200 < length (p_content p)" unfolding p2 by (rule l)
    have sp': "CHR '' '' \<in> set (take 200 (p_content p))" unfolding p2 by (rule sp)
    from mp[OF p3 l'] obtain s w rest where
      q1: "summary p = s @ ''...''" and q2: "take 200 (p_content p) = s @ w @ rest" and
      q3: "s = [] \<or> \<not> isspace (last s)" and q4: "list_all isspace w" and
      q5: "CHR '' '' \<notin> set rest" and
      q6: "CHR '' '' \<in> set (take 200 (p_content p)) \<longrightarrow> w \<noteq> [] \<and> last w = CHR '' ''"
      by blast
    from mp[OF q6 sp'] have q7: "w \<noteq> []" "last w = CHR '' ''" by blast+
    from 1 p1 q1 q2[unfolded p2] q3 q4 q5 q7 show ?thesis by blast
  qed
  have B:
    "\<exists>db' r p.
      create_post hex_oid (\<lambda>t. ''t'') sample_db (sample_post_create ''hi'') alice_id 5
        post_2_id = Inr (db', r) \<and>
      posts db' = posts sample_db @ [p] \<and> summary p = ''hi''"
  proof -
    from summary_of_created_post[OF 2 t, unfolded c] obtain p where
      p1: "posts db2 = posts sample_db @ [p]" and p2: "p_content p = ''hi''" and
      p3: "length (p_content p) \<le> 200 \<longrightarrow> summary p = p_content p"
      by blast
    have "length (p_content p) \<le> 200" unfolding p2 by simp
    from mp[OF p3 this] p2 have "summary p = ''hi''" by simp
    with 2 p1 show ?thesis by blast
  qed
  from A B t l sp show ?thesis by simp
qed

text \<open>
  C8, as it is stated, fails for a short content, which is stored without an ellipsis,
  and for a content of 250 characters whose only whitespace is a tab: the summary is
  then the first 200 characters and the ellipsis, not a prefix that ends at the
  whitespace.
\<close>

theorem summary_counterexample:
  "map_sum id (\<lambda>(db', r). summary (last (posts db')))
     (create_post hex_oid (\<lambda>t. ''t'') sample_db (sample_post_create ''hi'') alice_id 5 post_2_id)
     = Inr ''hi'' \<and>
   length tab_content = 250 \<and>
   map_sum id (\<lambda>(db', r). summary (last (posts db')))
     (create_post hex_oid (\<lambda>t. ''t'') sample_db (sample_post_create tab_content) alice_id 5
        post_2_id)
     = Inr (replicate 100 (CHR ''a'') @ [CHR 0x09] @ replicate 99 (CHR ''b'') @ ''...'')"
  by (simp add: post_eval_defs tab_content_def)

section \<open>Recursive reply fetch\<close>

lemma flatten_ids:
  "f_id (comment_dict c au) = cid c" "f_created_at (comment_dict c au) = created_at c"
  "f_parent_id (comment_dict c au) = parent_id c" "f_post_id (comment_dict c au) = post_id c"
  by (simp_all add: comment_dict_def)

lemma replies_loop_correct:
  assumes fo: "distinct (map cid (comments db))" and rd: "readable oid (comments db)"
    and IH: "\<And>x. length (filter (reached (comments db) x) (comments db)) < n \<Longrightarrow>
      \<exists>ts. get_comment_replies oid n db x = Some ts \<and>
        set (concat (map flatten ts)) =
          (\<lambda>c. comment_dict c (author_doc oid db c)) ` {c. reached (comments db) x c} \<and>
        sorted (map (\<lambda>t. f_created_at (node t)) ts) \<and> list_all ascending ts"
  shows "set ks \<subseteq> set (comments db) \<Longrightarrow>
     (\<forall>k\<in>set ks. length (filter (reached (comments db) (cid k)) (comments db)) < n) \<Longrightarrow>
     \<exists>ts. get_comment_replies_loop oid n db ks = Some ts \<and>
       map node ts = map (\<lambda>c. comment_dict c (author_doc oid db c)) ks \<and>
       set (concat (map flatten ts)) =
         (\<Union>k\<in>set ks. (\<lambda>c. comment_dict c (author_doc oid db c)) `
            ({k} \<union> {c. reached (comments db) (cid k) c})) \<and>
       list_all ascending ts"
proof (induction ks)
  case Nil
  then show ?case by simp
next
  case (Cons k ks)
  let ?V = "\<lambda>c. comment_dict c (author_doc oid db c)"
  have k: "k \<in> set (comments db)" using Cons.prems by simp
  have g: "get_comment_by_id oid db (cid k) = Some (?V k)"
    using fo k readableD[OF rd k] by (intro get_comment_by_id_stored) auto
  from Cons.prems have "length (filter (reached (comments db) (cid k)) (comments db)) < n"
    by simp
  from IH[OF this] obtain rs where rs: "get_comment_replies oid n db (cid k) = Some rs"
    "set (concat (map flatten rs)) = ?V ` {c. reached (comments db) (cid k) c}"
    "sorted (map (\<lambda>t. f_created_at (node t)) rs)" "list_all ascending rs"
    by blast
  from Cons.IH Cons.prems obtain rest where rest:
    "get_comment_replies_loop oid n db ks = Some rest"
    "map node rest = map ?V ks"
    "set (concat (map flatten rest)) =
       (\<Union>k\<in>set ks. ?V ` ({k} \<union> {c. reached (comments db) (cid k) c}))"
    "list_all ascending rest"
    by auto
  have "get_comment_replies_loop oid n db (k # ks) = Some (CommentWithReplies (?V k) rs # rest)"
    by (simp add: g rs(1) rest(1))
  moreover have "map node (CommentWithReplies (?V k) rs # rest) = map ?V (k # ks)"
    by (simp add: rest(2))
  moreover have "set (concat (map flatten (CommentWithReplies (?V k) rs # rest))) =
      (\<Union>k\<in>set (k # ks). ?V ` ({k} \<union> {c. reached (comments db) (cid k) c}))"
    using rs(2) rest(3) by simp
  moreover have "list_all ascending (CommentWithReplies (?V k) rs # rest)"
    using rs(3,4) rest(4) by simp
  ultimately show ?case by blast
qed

lemma get_comment_replies_correct:
  assumes fo: "forest (comments db)" and rd: "readable oid (comments db)"
  shows "length (filter (reached (comments db) x) (comments db)) < n \<Longrightarrow>
      \<exists>ts. get_comment_replies oid n db x = Some ts \<and>
        set (concat (map flatten ts)) =
          (\<lambda>c. comment_dict c (author_doc oid db c)) ` {c. reached (comments db) x c} \<and>
        sorted (map (\<lambda>t. f_created_at (node t)) ts) \<and> list_all ascending ts"
proof (induction n arbitrary: x)
  case 0
  then show ?case by simp
next
  case (Suc n)
  let ?V = "\<lambda>c. comment_dict c (author_doc oid db c)"
  define cs where "cs = comments db"
  define ks where "ks = sort_key created_at (filter (\<lambda>c. parent_id c = Some x) cs)"
  have dist: "distinct (map cid (comments db))" using fo by (simp add: forest_def)
  have sks: "set ks = {c \<in> set cs. parent_id c = Some x}" by (auto simp: ks_def)
  have "\<exists>ts. get_comment_replies_loop oid n db ks = Some ts \<and>
       map node ts = map ?V ks \<and>
       set (concat (map flatten ts)) =
         (\<Union>k\<in>set ks. ?V ` ({k} \<union> {c. reached (comments db) (cid k) c})) \<and>
       list_all ascending ts"
  proof (rule replies_loop_correct[OF dist rd])
    fix y assume "length (filter (reached (comments db) y) (comments db)) < n"
    then show "\<exists>ts. get_comment_replies oid n db y = Some ts \<and>
        set (concat (map flatten ts)) = ?V ` {c. reached (comments db) y c} \<and>
        sorted (map (\<lambda>t. f_created_at (node t)) ts) \<and> list_all ascending ts"
      by (rule Suc.IH)
  next
    show "set ks \<subseteq> set (comments db)" by (auto simp: sks cs_def)
    show "\<forall>k\<in>set ks. length (filter (reached (comments db) (cid k)) (comments db)) < n"
    proof
      fix k assume "k \<in> set ks"
      then have "k \<in> set (comments db)" "parent_id k = Some x" by (auto simp: sks cs_def)
      from child_fewer_reached[OF fo this] Suc.prems
      show "length (filter (reached (comments db) (cid k)) (comments db)) < n" by simp
    qed
  qed
  then obtain ts where ts: "get_comment_replies_loop oid n db ks = Some ts"
    "map node ts = map ?V ks"
    "set (concat (map flatten ts)) =
         (\<Union>k\<in>set ks. ?V ` ({k} \<union> {c. reached (comments db) (cid k) c}))"
    "list_all ascending ts" by blast
  have 1: "get_comment_replies oid (Suc n) db x = Some ts"
    using ts(1) by (simp add: ks_def cs_def)
  have "{c. reached (comments db) x c} =
      (\<Union>k\<in>set ks. {k} \<union> {c. reached (comments db) (cid k) c})"
    unfolding sks cs_def by (subst reached_via_child) auto
  then have 2: "set (concat (map flatten ts)) = ?V ` {c. reached (comments db) x c}"
    using ts(3) by (simp add: image_UN)
  have "map (\<lambda>t. f_created_at (node t)) ts = map f_created_at (map node ts)"
    by simp
  also have "\<dots> = map created_at ks" by (simp add: ts(2) flatten_ids)
  finally have 3: "sorted (map (\<lambda>t. f_created_at (node t)) ts)"
    by (simp add: ks_def)
  from 1 2 3 ts(4) show ?case by blast
qed

lemma reached_bound:
  "length (comments db) < n \<Longrightarrow> length (filter (reached (comments db) x) (comments db)) < n"
  by (rule le_less_trans[OF length_filter_le])

lemma sample_forest: "forest (comments sample_db)"
  by (simp add: forest_def sample_defs)

lemma sample_readable: "readable hex_oid (comments sample_db)"
  by (simp add: readable_def hex_oid_def is_hex_def sample_defs)

text \<open>A comment has one chain of ancestors, so the subtrees of two replies to the same
  parent share no comment.\<close>

lemma reached_common:
  assumes "distinct (map cid cs)" "reached cs x c" "reached cs y c"
  shows "x = y \<or> (\<exists>d. reached cs y d \<and> cid d = x) \<or> (\<exists>d. reached cs x d \<and> cid d = y)"
  using assms(2,3)
proof (induction rule: reached.induct)
  case (direct c)
  from direct.prems show ?case
  proof (cases rule: reached.cases)
    case direct
    with direct.hyps show ?thesis by simp
  next
    case (nested d)
    with direct.hyps show ?thesis by auto
  qed
next
  case (nested d c)
  from nested.prems show ?case
  proof (cases rule: reached.cases)
    case direct
    with nested.hyps show ?thesis by auto
  next
    case n: (nested d')
    have "d \<in> set cs" "d' \<in> set cs"
      using nested.hyps(1) n(1) by (auto dest: reached_stored)
    moreover have "cid d' = cid d" using n(3) nested.hyps(3) by simp
    ultimately have "d' = d" using same_id_same_comment[OF assms(1)] by blast
    with n(1) nested.IH show ?thesis by simp
  qed
qed

lemma subtrees_disjoint:
  assumes fo: "forest cs" and k: "k \<in> set cs" "parent_id k = Some x"
    and k': "k' \<in> set cs" "parent_id k' = Some x" and ne: "k \<noteq> k'"
  shows "cid ` ({k} \<union> {c. reached cs (cid k) c}) \<inter> cid ` ({k'} \<union> {c. reached cs (cid k') c}) = {}"
proof (rule ccontr)
  assume "\<not> ?thesis"
  then obtain i where i: "i \<in> cid ` ({k} \<union> {c. reached cs (cid k) c})"
    "i \<in> cid ` ({k'} \<union> {c. reached cs (cid k') c})" by blast
  from i(1) obtain c where c: "c = k \<or> reached cs (cid k) c" and ci: "cid c = i" by blast
  from i(2) obtain c' where c': "c' = k' \<or> reached cs (cid k') c'" and ci': "cid c' = i"
    by blast
  have e: "cid c = cid c'" using ci ci' by simp
  have dist: "distinct (map cid cs)" using fo by (simp add: forest_def)
  have "c \<in> set cs" "c' \<in> set cs" using c c' k k' by (auto dest: reached_stored)
  with e have cc: "c' = c" using same_id_same_comment[OF dist] by blast
  have i1: "\<not> reached cs (cid k) k'" using siblings_independent[OF fo k k'(2)] .
  have i2: "\<not> reached cs (cid k') k" using siblings_independent[OF fo k' k(2)] .
  from c c' cc ne i1 i2 have both: "reached cs (cid k) c" "reached cs (cid k') c" by auto
  from reached_common[OF dist both] show False
  proof (elim disjE exE conjE)
    assume "cid k = cid k'"
    with k k' ne same_id_same_comment[OF dist] show False by blast
  next
    fix d assume d: "reached cs (cid k') d" "cid d = cid k"
    then have "d \<in> set cs" by (auto dest: reached_stored)
    with d(2) k have "d = k" using same_id_same_comment[OF dist] by blast
    with d(1) i2 show False by simp
  next
    fix d assume d: "reached cs (cid k) d" "cid d = cid k'"
    then have "d \<in> set cs" by (auto dest: reached_stored)
    with d(2) k' have "d = k'" using same_id_same_comment[OF dist] by blast
    with d(1) i1 show False by simp
  qed
qed

lemma own_id_not_below:
  assumes fo: "forest cs" and k: "k \<in> set cs"
  shows "cid k \<notin> cid ` {c. reached cs (cid k) c}"
proof
  assume "cid k \<in> cid ` {c. reached cs (cid k) c}"
  then obtain c where c: "reached cs (cid k) c" "cid c = cid k" by auto
  then have "c \<in> set cs" by (auto dest: reached_stored)
  with c(2) k fo have "c = k" using same_id_same_comment[of cs c k] by (simp add: forest_def)
  with c(1) reached_irrefl[OF fo] show False by simp
qed

lemma replies_ids:
  assumes "forest (comments db)" "readable oid (comments db)"
    and "length (filter (reached (comments db) y) (comments db)) < n"
    and "get_comment_replies oid n db y = Some rs"
  shows "f_id ` set (concat (map flatten rs)) = cid ` {c. reached (comments db) y c}"
proof -
  from get_comment_replies_correct[OF assms(1,2,3)] assms(4)
  have "set (concat (map flatten rs)) =
      (\<lambda>c. comment_dict c (author_doc oid db c)) ` {c. reached (comments db) y c}"
    by auto
  then show ?thesis by (simp add: image_image flatten_ids)
qed

lemma replies_loop_distinct:
  assumes fo: "forest (comments db)" and rd: "readable oid (comments db)"
    and IH: "\<And>y rs. length (filter (reached (comments db) y) (comments db)) < n \<Longrightarrow>
       get_comment_replies oid n db y = Some rs \<Longrightarrow>
       distinct (map f_id (concat (map flatten rs)))"
  shows "distinct ks \<Longrightarrow> set ks \<subseteq> set (comments db) \<Longrightarrow>
     (\<forall>k\<in>set ks. parent_id k = Some x) \<Longrightarrow>
     (\<forall>k\<in>set ks. length (filter (reached (comments db) (cid k)) (comments db)) < n) \<Longrightarrow>
     get_comment_replies_loop oid n db ks = Some ts \<Longrightarrow>
     distinct (map f_id (concat (map flatten ts))) \<and>
     f_id ` set (concat (map flatten ts)) =
       (\<Union>k\<in>set ks. cid ` ({k} \<union> {c. reached (comments db) (cid k) c}))"
proof (induction ks arbitrary: ts)
  case Nil
  then show ?case by simp
next
  case (Cons k ks)
  let ?V = "\<lambda>c. comment_dict c (author_doc oid db c)"
  have dist: "distinct (map cid (comments db))" using fo by (simp add: forest_def)
  have k: "k \<in> set (comments db)" "parent_id k = Some x" using Cons.prems by simp_all
  have kn: "length (filter (reached (comments db) (cid k)) (comments db)) < n"
    using Cons.prems by simp
  have g: "get_comment_by_id oid db (cid k) = Some (?V k)"
    using dist k(1) readableD[OF rd k(1)] by (intro get_comment_by_id_stored) auto
  from Cons.prems(5) g obtain rs rest where
    rs: "get_comment_replies oid n db (cid k) = Some rs"
    and rest: "get_comment_replies_loop oid n db ks = Some rest"
    and ts: "ts = CommentWithReplies (?V k) rs # rest"
    by (auto split: option.splits)
  have d1: "distinct (map f_id (concat (map flatten rs)))" using kn rs by (rule IH)
  have s1: "f_id ` set (concat (map flatten rs)) = cid ` {c. reached (comments db) (cid k) c}"
    using fo rd kn rs by (rule replies_ids)
  from Cons.IH[OF _ _ _ _ rest] Cons.prems have
    d2: "distinct (map f_id (concat (map flatten rest)))" and
    s2: "f_id ` set (concat (map flatten rest)) =
       (\<Union>k\<in>set ks. cid ` ({k} \<union> {c. reached (comments db) (cid k) c}))"
    by auto
  have own: "cid k \<notin> f_id ` set (concat (map flatten rs))"
    unfolding s1 using fo k(1) by (rule own_id_not_below)
  have head: "f_id ` set (flatten (CommentWithReplies (?V k) rs))
      = cid ` ({k} \<union> {c. reached (comments db) (cid k) c})"
    using s1 by (simp add: flatten_ids)
  have disj: "f_id ` set (flatten (CommentWithReplies (?V k) rs))
      \<inter> f_id ` set (concat (map flatten rest)) = {}"
  proof -
    have "cid ` ({k} \<union> {c. reached (comments db) (cid k) c})
        \<inter> cid ` ({k'} \<union> {c. reached (comments db) (cid k') c}) = {}"
      if "k' \<in> set ks" for k'
    proof (rule subtrees_disjoint[OF fo k])
      show "k' \<in> set (comments db)" "parent_id k' = Some x" using that Cons.prems by auto
      show "k \<noteq> k'" using that Cons.prems(1) by auto
    qed
    then show ?thesis unfolding head s2 by blast
  qed
  have "distinct (map f_id (flatten (CommentWithReplies (?V k) rs)))"
    using d1 own by (simp add: flatten_ids)
  with d2 disj have "distinct (map f_id (concat (map flatten ts)))"
    unfolding ts by (simp del: flatten.simps)
  moreover have "f_id ` set (concat (map flatten ts)) =
       (\<Union>k\<in>set (k # ks). cid ` ({k} \<union> {c. reached (comments db) (cid k) c}))"
    unfolding ts using head s2 by (simp del: flatten.simps add: image_Un)
  ultimately show ?case by blast
qed

lemma get_comment_replies_distinct:
  assumes fo: "forest (comments db)" and rd: "readable oid (comments db)"
  shows "length (filter (reached (comments db) x) (comments db)) < n \<Longrightarrow>
     get_comment_replies oid n db x = Some ts \<Longrightarrow>
     distinct (map f_id (concat (map flatten ts)))"
proof (induction n arbitrary: x ts)
  case 0
  then show ?case by simp
next
  case (Suc n)
  define ks where
    "ks = sort_key created_at (filter (\<lambda>c. parent_id c = Some x) (comments db))"
  have dist: "distinct (comments db)" using fo by (auto simp: forest_def distinct_map)
  have loop: "get_comment_replies_loop oid n db ks = Some ts"
    using Suc.prems(2) by (simp add: ks_def)
  have "distinct (map f_id (concat (map flatten ts))) \<and>
     f_id ` set (concat (map flatten ts)) =
       (\<Union>k\<in>set ks. cid ` ({k} \<union> {c. reached (comments db) (cid k) c}))"
  proof (rule replies_loop_distinct[OF fo rd _ _ _ _ _ loop])
    fix y rs
    assume "length (filter (reached (comments db) y) (comments db)) < n"
      "get_comment_replies oid n db y = Some rs"
    then show "distinct (map f_id (concat (map flatten rs)))" by (rule Suc.IH)
  next
    show "distinct ks" using dist by (simp add: ks_def)
    show "set ks \<subseteq> set (comments db)" by (auto simp: ks_def)
    show "\<forall>k\<in>set ks. parent_id k = Some x" by (auto simp: ks_def)
    show "\<forall>k\<in>set ks. length (filter (reached (comments db) (cid k)) (comments db)) < n"
    proof
      fix k assume "k \<in> set ks"
      then have "k \<in> set (comments db)" "parent_id k = Some x" by (auto simp: ks_def)
      from child_fewer_reached[OF fo this] Suc.prems(1)
      show "length (filter (reached (comments db) (cid k)) (comments db)) < n" by simp
    qed
  qed
  then show ?case by simp
qed

text \<open>
  In a forest whose stored ids are readable, \<open>get_comment_replies\<close> on any string
  \<open>x\<close> returns, and the dictionaries of all trees it returns, nested replies
  included, are exactly the dictionaries of the stored comments reached from \<open>x\<close>,
  each of them once; the replies are in ascending order of \<open>created_at\<close> at the top
  and at every level below.
\<close>

lemma get_comment_replies_gives_reached:
  assumes "forest (comments db)" and "readable oid (comments db)"
    and "length (comments db) < n"
  shows "\<exists>ts. get_comment_replies oid n db x = Some ts \<and>
     set (concat (map flatten ts)) =
       {d. \<exists>c. reached (comments db) x c \<and> get_comment_by_id oid db (cid c) = Some d} \<and>
     f_id ` set (concat (map flatten ts)) = cid ` {c. reached (comments db) x c} \<and>
     distinct (map f_id (concat (map flatten ts))) \<and>
     sorted (map (\<lambda>t. f_created_at (node t)) ts) \<and> list_all ascending ts"
proof -
  let ?V = "\<lambda>c. comment_dict c (author_doc oid db c)"
  have dist: "distinct (map cid (comments db))" using assms(1) by (simp add: forest_def)
  from get_comment_replies_correct[OF assms(1,2) reached_bound[OF assms(3)]]
  obtain ts where ts: "get_comment_replies oid n db x = Some ts"
    "set (concat (map flatten ts)) = ?V ` {c. reached (comments db) x c}"
    "sorted (map (\<lambda>t. f_created_at (node t)) ts)" "list_all ascending ts"
    by blast
  have g: "get_comment_by_id oid db (cid c) = Some (?V c)" if "reached (comments db) x c" for c
  proof -
    from that have c: "c \<in> set (comments db)" by (rule reached_stored)
    with dist readableD[OF assms(2) c] show ?thesis
      by (intro get_comment_by_id_stored) auto
  qed
  have 2: "set (concat (map flatten ts)) =
       {d. \<exists>c. reached (comments db) x c \<and> get_comment_by_id oid db (cid c) = Some d}"
    unfolding ts(2) using g by (auto simp: image_iff)
  have 3: "f_id ` set (concat (map flatten ts)) = cid ` {c. reached (comments db) x c}"
    unfolding ts(2) by (simp add: image_image flatten_ids)
  have 4: "distinct (map f_id (concat (map flatten ts)))"
    using assms(1,2) reached_bound[OF assms(3)] ts(1) by (rule get_comment_replies_distinct)
  from ts(1) 2 3 4 ts(3,4) show ?thesis by blast
qed

text \<open>
  When, in addition, every stored \<open>parent_id\<close> is in the spelling that \<open>str\<close> gives,
  the comments in the trees are the descendants of \<open>x\<close>.
\<close>

lemma get_comment_replies_canonical:
  assumes "forest (comments db)" and "readable oid (comments db)"
    and "canonical_parents oid (comments db)" and "length (comments db) < n"
  shows "\<exists>ts. get_comment_replies oid n db x = Some ts \<and>
     f_id ` set (concat (map flatten ts)) = cid ` {c. descendant oid (comments db) x c} \<and>
     distinct (map f_id (concat (map flatten ts))) \<and>
     sorted (map (\<lambda>t. f_created_at (node t)) ts) \<and> list_all ascending ts"
  using get_comment_replies_gives_reached[OF assms(1,2,4), of x]
  by (auto simp: descendant_is_reached[OF assms(3)])

text \<open>
  C5 where an id is spelled in upper case. \<open>get_comment_replies\<close> queries the stored
  \<open>parent_id\<close> strings for the string it is given, and nothing resolves either through
  \<open>ObjectId\<close>. In the thread with the reply \<open>thread_shout\<close>, which \<open>create_comment\<close>
  accepted for the root under the upper-case spelling of its id, the root has two
  descendants and the flattened result for the root's stored id holds one:
  \<open>thread_shout\<close> is missing. For the upper-case spelling of the root's id, which
  \<open>ObjectId\<close> reads as the root, the result is empty although the root has a reply.
\<close>

theorem replies_miss_other_spelling:
  "descendant object_id [thread_root, thread_reply, thread_shout] root_id thread_reply \<and>
   descendant object_id [thread_root, thread_reply, thread_shout] root_id thread_shout \<and>
   map_option (\<lambda>ts. map f_id (concat (map flatten ts)))
     (get_comment_replies object_id 5
        (thread_db\<lparr>comments := [thread_root, thread_reply, thread_shout]\<rparr>) root_id)
     = Some [reply_id] \<and>
   object_id root_id_upper = Some root_id \<and>
   descendant object_id (comments thread_db) root_id thread_reply \<and>
   get_comment_replies object_id 5 thread_db root_id_upper = Some []"
proof -
  have 1: "map_option (\<lambda>ts. map f_id (concat (map flatten ts)))
     (get_comment_replies object_id 5
        (thread_db\<lparr>comments := [thread_root, thread_reply, thread_shout]\<rparr>) root_id)
     = Some [reply_id]"
    by (simp add: get_comment_by_id_def get_comment_by_id_body_def comment_dict_def
        author_fields_def numeral_nat thread_defs sample_defs)
  have 2: "get_comment_replies object_id 5 thread_db root_id_upper = Some []"
    by (simp add: numeral_nat thread_defs sample_defs)
  show ?thesis
    using 1 2 by (simp add: shout_is_descendant reply_is_descendant thread_db_def object_id_upper)
qed

section \<open>Listing the comments of a post\<close>

lemma page_loop_correct:
  assumes "forest (comments db)" and "readable oid (comments db)"
    and "length (comments db) < n"
  shows "set cur \<subseteq> set (comments db) \<Longrightarrow>
     get_comments_by_post_loop oid n db incl cur = Some (map (page_item_of oid n db incl) cur)"
proof (induction cur)
  case Nil
  then show ?case by simp
next
  case (Cons c cur)
  have dist: "distinct (map cid (comments db))" using assms(1) by (simp add: forest_def)
  have c: "c \<in> set (comments db)" using Cons.prems by simp
  have g: "get_comment_by_id oid db (cid c) = Some (comment_dict c (author_doc oid db c))"
    using dist c readableD[OF assms(2) c] by (intro get_comment_by_id_stored) auto
  from get_comment_replies_correct[OF assms(1,2) reached_bound[OF assms(3)]]
  obtain ts where ts: "get_comment_replies oid n db (cid c) = Some ts" by blast
  from Cons have rest: "get_comments_by_post_loop oid n db incl cur
      = Some (map (page_item_of oid n db incl) cur)" by simp
  show ?case
  proof (cases "incl \<and> \<not> truthy (parent_id c)")
    case True
    then have "page_item_of oid n db incl c = (comment_dict c (author_doc oid db c), Some ts)"
      by (simp add: page_item_of_def ts)
    with True rest show ?thesis by (simp add: g ts)
  next
    case False
    then have "page_item_of oid n db incl c = (comment_dict c (author_doc oid db c), None)"
      by (auto simp: page_item_of_def)
    with False rest show ?thesis by (cases incl; cases "truthy (parent_id c)") (simp_all add: g)
  qed
qed

text \<open>
  C4, as the code has it. The page of \<open>get_comments_by_post\<close> is the window
  \<open>offset\<close>, \<open>limit\<close> of the comments of the post in descending order of
  \<open>created_at\<close>. Without \<open>include_replies\<close> these are the root comments only
  (\<open>parent_id\<close> null), and no item has a \<open>replies\<close> key. With \<open>include_replies\<close>
  they are all comments of the post, roots and replies alike: an item without parent
  carries the reply tree that \<open>get_comment_replies\<close> gives for it, and a reply is an
  item of the page too, without \<open>replies\<close> key.
\<close>

theorem get_comments_by_post_page:
  assumes "forest (comments db)" and "readable oid (comments db)"
    and "length (comments db) < n" and "0 \<le> off" and "1 \<le> lim"
  shows "\<exists>its. get_comments_by_post oid n db pst (Some lim) (Some off) (Some incl) = Some (Inr its) \<and>
     map (\<lambda>(d, r). f_id d) its =
       map cid (take (nat lim) (drop (nat off) (sort_key (\<lambda>c. - created_at c)
         (filter (\<lambda>c. post_id c = pst \<and> (incl \<or> parent_id c = None)) (comments db))))) \<and>
     sorted_wrt (\<lambda>a b. a \<ge> b) (map (\<lambda>(d, r). f_created_at d) its) \<and>
     (\<forall>(d, r)\<in>set its. f_post_id d = pst \<and> (\<not> incl \<longrightarrow> f_parent_id d = None \<and> r = None) \<and>
        (incl \<longrightarrow> (if truthy (f_parent_id d) then r = None
                   else r \<noteq> None \<and> r = get_comment_replies oid n db (f_id d))))"
proof -
  define matching where "matching =
    sort_key (\<lambda>c. - created_at c)
      (filter (\<lambda>c. post_id c = pst \<and> (incl \<or> parent_id c = None)) (comments db))"
  define cur where "cur = take (nat lim) (drop (nat off) matching)"
  define its where "its = map (page_item_of oid n db incl) cur"
  have sub: "set cur \<subseteq> set matching"
    unfolding cur_def by (meson set_take_subset set_drop_subset subset_trans)
  have m: "set matching = {c \<in> set (comments db). post_id c = pst \<and> (incl \<or> parent_id c = None)}"
    by (auto simp: matching_def)
  have sl: "skip_limit off lim matching = Inr cur"
    using assms(4,5) by (simp add: skip_limit_def cur_def)
  have "get_comments_by_post_loop oid n db incl cur = Some its"
    unfolding its_def using sub m by (intro page_loop_correct[OF assms(1-3)]) auto
  then have 1: "get_comments_by_post oid n db pst (Some lim) (Some off) (Some incl) = Some (Inr its)"
    using sl by (simp add: get_comments_by_post_def matching_def[symmetric])
  have 2: "map (\<lambda>(d, r). f_id d) its = map cid cur"
    by (simp add: its_def page_item_of_def flatten_ids comp_def)
  have "sorted (map (\<lambda>c. - created_at c) matching)" by (simp add: matching_def)
  then have "sorted (take (nat lim) (drop (nat off) (map (\<lambda>c. - created_at c) matching)))"
    by (intro sorted_wrt_take sorted_wrt_drop)
  then have "sorted (map (\<lambda>c. - created_at c) cur)"
    by (simp add: cur_def take_map drop_map)
  then have "sorted_wrt (\<lambda>a b. a \<ge> b) (map created_at cur)"
    by (simp add: sorted_wrt_map)
  moreover have "map (\<lambda>(d, r). f_created_at d) its = map created_at cur"
    by (simp add: its_def page_item_of_def flatten_ids comp_def)
  ultimately have 3: "sorted_wrt (\<lambda>a b. a \<ge> b) (map (\<lambda>(d, r). f_created_at d) its)" by simp
  have 4: "\<forall>(d, r)\<in>set its. f_post_id d = pst \<and> (\<not> incl \<longrightarrow> f_parent_id d = None \<and> r = None) \<and>
        (incl \<longrightarrow> (if truthy (f_parent_id d) then r = None
                   else r \<noteq> None \<and> r = get_comment_replies oid n db (f_id d)))"
  proof (clarify)
    fix d r assume "(d, r) \<in> set its"
    then obtain c where c: "c \<in> set cur" "d = comment_dict c (author_doc oid db c)"
      "r = (if incl \<and> \<not> truthy (parent_id c) then get_comment_replies oid n db (cid c) else None)"
      by (auto simp: its_def page_item_of_def)
    from c(1) sub m have cm: "post_id c = pst" "incl \<or> parent_id c = None" by auto
    from get_comment_replies_correct[OF assms(1,2) reached_bound[OF assms(3)]]
    obtain ts where ts: "get_comment_replies oid n db (cid c) = Some ts" by blast
    show "f_post_id d = pst \<and> (\<not> incl \<longrightarrow> f_parent_id d = None \<and> r = None) \<and>
        (incl \<longrightarrow> (if truthy (f_parent_id d) then r = None
                   else r \<noteq> None \<and> r = get_comment_replies oid n db (f_id d)))"
      using c(2,3) cm ts by (auto simp: flatten_ids)
  qed
  from 1 2 3 4 show ?thesis unfolding cur_def matching_def by blast
qed

theorem get_comments_by_post_page_witness:
  "forest (comments sample_db) \<and> readable hex_oid (comments sample_db) \<and>
   length (comments sample_db) < 5 \<and> (0::int) \<le> 0 \<and> (1::int) \<le> 10 \<and>
   (\<exists>its. get_comments_by_post hex_oid 5 sample_db post_1_id (Some 10) (Some 0) (Some True)
        = Some (Inr its) \<and>
     map (\<lambda>(d, r). f_id d) its =
       map cid (take (nat 10) (drop (nat 0) (sort_key (\<lambda>c. - created_at c)
         (filter (\<lambda>c. post_id c = post_1_id \<and> (True \<or> parent_id c = None))
            (comments sample_db))))) \<and>
     sorted_wrt (\<lambda>a b. a \<ge> b) (map (\<lambda>(d, r). f_created_at d) its) \<and>
     (\<forall>(d, r)\<in>set its. f_post_id d = post_1_id \<and>
        (if truthy (f_parent_id d) then r = None
         else r \<noteq> None \<and> r = get_comment_replies hex_oid 5 sample_db (f_id d))))"
proof -
  have l: "length (comments sample_db) < 5" by (simp add: sample_db_def)
  have o: "(0::int) \<le> 0" and m: "(1::int) \<le> 10" by simp_all
  from get_comments_by_post_page[OF sample_forest sample_readable l o m,
      of post_1_id True]
  obtain its where its:
    "get_comments_by_post hex_oid 5 sample_db post_1_id (Some 10) (Some 0) (Some True)
        = Some (Inr its)"
    "map (\<lambda>(d, r). f_id d) its =
       map cid (take (nat 10) (drop (nat 0) (sort_key (\<lambda>c. - created_at c)
         (filter (\<lambda>c. post_id c = post_1_id \<and> (True \<or> parent_id c = None))
            (comments sample_db)))))"
    "sorted_wrt (\<lambda>a b. a \<ge> b) (map (\<lambda>(d, r). f_created_at d) its)"
    "\<forall>(d, r)\<in>set its. f_post_id d = post_1_id \<and>
        (\<not> True \<longrightarrow> f_parent_id d = None \<and> r = None) \<and>
        (True \<longrightarrow> (if truthy (f_parent_id d) then r = None
         else r \<noteq> None \<and> r = get_comment_replies hex_oid 5 sample_db (f_id d)))"
    by blast
  from its(4) have "\<forall>(d, r)\<in>set its. f_post_id d = post_1_id \<and>
        (if truthy (f_parent_id d) then r = None
         else r \<noteq> None \<and> r = get_comment_replies hex_oid 5 sample_db (f_id d))"
    by auto
  with its(1,2,3) sample_forest sample_readable l show ?thesis by auto
qed

text \<open>
  C4, as it is stated, fails with \<open>include_replies\<close>: on the sample database the page
  holds the four comments of the post, the two replies among them as top-level items;
  only the two roots carry \<open>replies\<close>.
\<close>

theorem replies_on_page_counterexample:
  "map_option (map_sum id (map (\<lambda>(d, r). (f_id d, f_parent_id d, r \<noteq> None))))
     (get_comments_by_post hex_oid 5 sample_db post_1_id (Some 10) (Some 0) (Some True))
   = Some (Inr [(comment_4_id, None, True), (comment_3_id, Some comment_2_id, False),
                (comment_2_id, Some comment_1_id, False), (comment_1_id, None, True)])"
  by (simp add: get_comments_by_post_def skip_limit_def eval_defs sample_defs)

end
